theory Spec2Isabelle
  imports Main "HOL-Library.Word" "HOL-Library.Sublist" "HOL-Library.AList"
begin

section \<open>Data model of \<open>stream/udp_rtp.go\<close>\<close>

text \<open>
  A datagram payload is a Go \<open>[]byte\<close>. A subscriber queue is a Go
  \<open>chan []byte\<close>; channels are reference values, so a queue is named by an
  identity and its contents live in a store. Hubs are reached through pointers
  (\<open>*StreamHub\<close>) and live in a heap of their own.
\<close>

type_synonym payload = "8 word list"
type_synonym chan_id = nat
type_synonym hub_id = nat

text \<open>
  The state of one buffered channel: the buffered items (oldest first), the
  capacity given to \<open>make\<close>, and whether \<open>close\<close> has been called.
\<close>

record queue =
  buf :: "payload list"
  cap :: nat
  closed :: bool

type_synonym store = "chan_id \<Rightarrow> queue"

text \<open>
  The ways an operation of this file can fail to return: the three run-time
  panics (which end the process), and blocking forever on a mutex or on an
  unbuffered channel nobody receives from.
\<close>

datatype fault =
    SendOnClosedChannel
  | CloseOfClosedChannel
  | AssignmentToNilMap
  | BlockedForever

text \<open>
  \<open>ch := make(chan []byte, 20)\<close> in \<open>ServeHTTP\<close>.
\<close>

definition make_chan :: "nat \<Rightarrow> queue" where
  "make_chan n = \<lparr>buf = [], cap = n, closed = False\<rparr>"

text \<open>
  The non-blocking send
  \<^verbatim>\<open>select { case ch <- data: default: }\<close>
  Go panics when the channel is closed; otherwise the item is buffered when
  there is room and the \<open>default\<close> branch drops it when there is none.
  (The queues of this program are buffered and have a single consumer, so a
  send succeeds exactly when the buffer has room.)
\<close>

datatype attempt = Enqueued | Dropped

definition try_send :: "chan_id \<Rightarrow> payload \<Rightarrow> store \<Rightarrow> fault + (attempt \<times> store)" where
  "try_send ch data st =
     (let q = st ch in
      if closed q then Inl SendOnClosedChannel
      else if length (buf q) < cap q
        then Inr (Enqueued, st(ch := q\<lparr>buf := buf q @ [data]\<rparr>))
        else Inr (Dropped, st))"

text \<open>\<open>close(ch)\<close>: closing a closed channel panics.\<close>

definition close_chan :: "chan_id \<Rightarrow> store \<Rightarrow> fault + store" where
  "close_chan ch st =
     (let q = st ch in
      if closed q then Inl CloseOfClosedChannel
      else Inr (st(ch := q\<lparr>closed := True\<rparr>)))"

text \<open>
  \<open>for ch := range h.Clients { close(ch) }\<close>, over the keys in the order the
  range visits them.
\<close>

fun close_all :: "chan_id list \<Rightarrow> store \<Rightarrow> fault + store" where
  "close_all [] st = Inr st"
| "close_all (ch # chs) st =
     (case close_chan ch st of
        Inl p \<Rightarrow> Inl p
      | Inr st' \<Rightarrow> close_all chs st')"

subsection \<open>\<open>broadcastToClients\<close>\<close>

text \<open>
  \<^verbatim>\<open>
  func (h *StreamHub) broadcastToClients(clients []chan []byte, data []byte) {
      for _, ch := range clients {
          select {
          case ch <- data:
          default:
          }
      }
  }
  \<close>
  The model returns, besides the new store, the log of send attempts in the
  order they were made: one entry per attempt, naming the queue and its outcome.
\<close>

fun broadcastToClients ::
  "chan_id list \<Rightarrow> payload \<Rightarrow> store \<Rightarrow> fault + ((chan_id \<times> attempt) list \<times> store)" where
  "broadcastToClients [] data st = Inr ([], st)"
| "broadcastToClients (ch # chs) data st =
     (case try_send ch data st of
        Inl p \<Rightarrow> Inl p
      | Inr (a, st') \<Rightarrow>
          (case broadcastToClients chs data st' of
             Inl p \<Rightarrow> Inl p
           | Inr (log, st'') \<Rightarrow> Inr ((ch, a) # log, st'')))"


section \<open>Hubs, the registry and the world\<close>

text \<open>
  \<^verbatim>\<open>
  type StreamHub struct {
      Mu        sync.Mutex
      Clients   map[chan []byte]struct{}
      AddCh     chan chan []byte
      RemoveCh  chan chan []byte
      UdpConn   *net.UDPConn
      Closed    chan struct{}
      BufPool   *sync.Pool
      LastFrame []byte
  }
  \<close>
  \<open>Clients\<close> is a Go map used as a set; \<open>None\<close> is the nil map, and the
  list holds the keys, without repetition, in the order a \<open>range\<close> visits them
  (Go leaves that order open, and every statement below holds for all orders).
  \<open>Closed\<close> is a channel that is only ever closed: the field records whether
  it has been. \<open>LastFrame\<close> is \<open>None\<close> for the nil slice. Of the socket only
  open or closed matters. \<open>Mu\<close> is realised by modelling each critical section
  as one atomic function; \<open>AddCh\<close> and \<open>RemoveCh\<close> are unbuffered, so a send
  completes exactly when the coordinator takes the matching \<open>select\<close> branch.
\<close>

datatype socket = SocketOpen | SocketClosed

record StreamHub =
  Clients :: "chan_id list option"
  UdpConn :: "socket option"
  Closed :: bool
  LastFrame :: "payload option"

definition clients_of :: "StreamHub \<Rightarrow> chan_id list" where
  "clients_of hub = (case Clients hub of None \<Rightarrow> [] | Some cs \<Rightarrow> cs)"

text \<open>The messages handed to \<open>logger.LogPrintf\<close>, with their arguments.\<close>

datatype log_msg =
    ListeningDefault string
  | IfaceUnavailable string
  | ListeningOn string string
  | ListenFailedOn string string
  | FallbackPlainUDP string
  | UdpListening string "string list"
  | ClientJoined nat
  | ClientLeft nat
  | UdpReadError
  | ClientWriteError
  | ClientWriteTimeout
  | HubClosedDisconnect
  | ClientDisconnected
  | ClientIdleTimeout
  | UdpListenerClosed

text \<open>
  Calls into the collaborators outside the hub, in the order they are made:
  the logger, \<open>time.Sleep\<close> (milliseconds), the byte counter
  \<open>monitor.AddAppInboundBytes\<close>, and \<open>http.Error\<close> with its status code.
\<close>

datatype effect =
    LogPrintf log_msg
  | Sleep nat
  | AddAppInboundBytes nat
  | HttpError nat

text \<open>
  The state of a hub's reader goroutine between its two steps: after the locked
  section of \<open>readLoop\<close> it holds the snapshot \<open>clients\<close> and the payload
  \<open>data\<close> it is about to broadcast.
\<close>

datatype reader = Reading | Holding "chan_id list" payload

text \<open>
  The whole program state: the channel store, the heap of hubs, the registry
  \<open>Hubs\<close> (a Go map from key to hub pointer, as an association list whose
  order is the order a \<open>range\<close> visits it), the next unused hub and channel
  identities, for every hub whether its coordinator goroutine \<open>run\<close> has
  returned and where its reader stands, for the session that owns a queue the
  payloads written to its HTTP response and whether \<open>ServeHTTP\<close> has left its
  delivery loop, and the calls made to the outside.
\<close>

record world =
  chans :: store
  heap :: "hub_id \<Rightarrow> StreamHub"
  Hubs :: "(string \<times> hub_id) list"
  next_hub :: hub_id
  next_chan :: chan_id
  run_exited :: "hub_id \<Rightarrow> bool"
  readers :: "hub_id \<Rightarrow> reader"
  response :: "chan_id \<Rightarrow> payload list"
  returned :: "chan_id \<Rightarrow> bool"
  effects :: "effect list"

definition emit :: "effect list \<Rightarrow> world \<Rightarrow> world" where
  "emit es w = w\<lparr>effects := effects w @ es\<rparr>"

definition set_hub :: "hub_id \<Rightarrow> StreamHub \<Rightarrow> world \<Rightarrow> world" where
  "set_hub h hub w = w\<lparr>heap := (heap w)(h := hub)\<rparr>"

subsection \<open>\<open>Close\<close>\<close>

text \<open>
  The registry scan of \<open>Close\<close>:
  \<^verbatim>\<open>
  for key, hub := range Hubs {
      if hub == h { delete(Hubs, key); break }
  }
  \<close>
  \<open>find_hub\<close> is the key at which the scan stops, if any.
\<close>

fun find_hub :: "hub_id \<Rightarrow> (string \<times> hub_id) list \<Rightarrow> string option" where
  "find_hub h [] = None"
| "find_hub h ((key, hub) # kvs) = (if hub = h then Some key else find_hub h kvs)"

definition unregister :: "hub_id \<Rightarrow> (string \<times> hub_id) list \<Rightarrow> (string \<times> hub_id) list" where
  "unregister h reg = (case find_hub h reg of None \<Rightarrow> reg | Some key \<Rightarrow> AList.delete key reg)"

text \<open>
  \<^verbatim>\<open>
  func (h *StreamHub) Close() {
      h.Mu.Lock()
      select {
      case <-h.Closed:
          h.Mu.Unlock()
          return
      default:
          close(h.Closed)
      }
      if h.UdpConn != nil { _ = h.UdpConn.Close() }
      for ch := range h.Clients { close(ch) }
      h.Clients = nil
      h.Mu.Unlock()
      HubsMu.Lock()
      ... (the registry scan) ...
      HubsMu.Unlock()
      logger.LogPrintf(...)
  }
  \<close>
\<close>

definition Close :: "hub_id \<Rightarrow> world \<Rightarrow> fault + world" where
  "Close h w =
     (let hub = heap w h in
      if Closed hub then Inr w
      else
        (case close_all (clients_of hub) (chans w) of
           Inl p \<Rightarrow> Inl p
         | Inr st \<Rightarrow>
             Inr (emit [LogPrintf UdpListenerClosed]
                   (w\<lparr>chans := st,
                      heap := (heap w)(h := hub\<lparr>Clients := None,
                                                 UdpConn := map_option (\<lambda>_. SocketClosed) (UdpConn hub),
                                                 Closed := True\<rparr>),
                      Hubs := unregister h (Hubs w)\<rparr>))))"

text \<open>\<open>Close\<close> invoked \<open>n\<close> times in a row.\<close>

fun Close_times :: "nat \<Rightarrow> hub_id \<Rightarrow> world \<Rightarrow> fault + world" where
  "Close_times 0 h w = Inr w"
| "Close_times (Suc n) h w =
     (case Close h w of Inl p \<Rightarrow> Inl p | Inr w' \<Rightarrow> Close_times n h w')"

subsection \<open>The coordinator \<open>run\<close>\<close>

text \<open>
  The \<open>AddCh\<close> branch:
  \<^verbatim>\<open>
  case ch := <-h.AddCh:
      h.Mu.Lock()
      h.Clients[ch] = struct{}{}
      if h.LastFrame != nil {
          select { case ch <- h.LastFrame: default: }
      }
      h.Mu.Unlock()
      logger.LogPrintf(..., len(h.Clients))
  \<close>
  Writing to the nil map panics.
\<close>

definition run_add :: "hub_id \<Rightarrow> chan_id \<Rightarrow> world \<Rightarrow> fault + world" where
  "run_add h ch w =
     (let hub = heap w h in
      case Clients hub of
        None \<Rightarrow> Inl AssignmentToNilMap
      | Some cs \<Rightarrow>
          (let cs' = List.insert ch cs;
               w' = set_hub h (hub\<lparr>Clients := Some cs'\<rparr>) w
           in case LastFrame hub of
                None \<Rightarrow> Inr (emit [LogPrintf (ClientJoined (length cs'))] w')
              | Some frame \<Rightarrow>
                  (case try_send ch frame (chans w') of
                     Inl p \<Rightarrow> Inl p
                   | Inr (a, st) \<Rightarrow>
                       Inr (emit [LogPrintf (ClientJoined (length cs'))] (w'\<lparr>chans := st\<rparr>)))))"

text \<open>
  The \<open>RemoveCh\<close> branch:
  \<^verbatim>\<open>
  case ch := <-h.RemoveCh:
      h.Mu.Lock()
      if _, ok := h.Clients[ch]; ok {
          delete(h.Clients, ch)
          close(ch)
      }
      clientCount := len(h.Clients)
      h.Mu.Unlock()
      logger.LogPrintf(..., clientCount)
      if clientCount == 0 { h.Close() }
  \<close>
\<close>

definition run_remove :: "hub_id \<Rightarrow> chan_id \<Rightarrow> world \<Rightarrow> fault + world" where
  "run_remove h ch w =
     (let hub = heap w h in
      case (if ch \<in> set (clients_of hub)
            then (case close_chan ch (chans w) of
                    Inl p \<Rightarrow> Inl p
                  | Inr st \<Rightarrow>
                      Inr (set_hub h (hub\<lparr>Clients := Some (removeAll ch (clients_of hub))\<rparr>)
                            (w\<lparr>chans := st\<rparr>)))
            else Inr w) of
        Inl p \<Rightarrow> Inl p
      | Inr w' \<Rightarrow>
          (let clientCount = length (clients_of (heap w' h));
               w'' = emit [LogPrintf (ClientLeft clientCount)] w'
           in if clientCount = 0 then Close h w'' else Inr w''))"

text \<open>
  The \<open>Closed\<close> branch, after which the goroutine returns:
  \<^verbatim>\<open>
  case <-h.Closed:
      h.Mu.Lock()
      for ch := range h.Clients { close(ch) }
      h.Clients = nil
      h.Mu.Unlock()
      return
  \<close>
  The branch can be taken only once \<open>Closed\<close> has been closed.
\<close>

definition run_closed :: "hub_id \<Rightarrow> world \<Rightarrow> fault + world" where
  "run_closed h w =
     (let hub = heap w h in
      case close_all (clients_of hub) (chans w) of
        Inl p \<Rightarrow> Inl p
      | Inr st \<Rightarrow>
          Inr (set_hub h (hub\<lparr>Clients := None\<rparr>) (w\<lparr>chans := st, run_exited := (run_exited w)(h := True)\<rparr>)))"

text \<open>
  A send on the unbuffered \<open>AddCh\<close> or \<open>RemoveCh\<close> of a hub returns when the
  hub's coordinator receives it, and the coordinator then runs the branch; once
  the coordinator has returned, nobody receives and the sender blocks forever.
\<close>

definition send_AddCh :: "hub_id \<Rightarrow> chan_id \<Rightarrow> world \<Rightarrow> fault + world" where
  "send_AddCh h ch w = (if run_exited w h then Inl BlockedForever else run_add h ch w)"

definition send_RemoveCh :: "hub_id \<Rightarrow> chan_id \<Rightarrow> world \<Rightarrow> fault + world" where
  "send_RemoveCh h ch w = (if run_exited w h then Inl BlockedForever else run_remove h ch w)"


subsection \<open>The reader \<open>readLoop\<close>\<close>

text \<open>
  What one \<open>h.UdpConn.ReadFromUDP(buf)\<close> hands back: the \<open>n\<close> bytes it stored
  in the pool buffer, or an error, of which the code only asks whether
  \<open>errors.Is(err, net.ErrClosed)\<close>.
\<close>

datatype read_result = Datagram payload | ReadError bool

text \<open>How a loop body ends: the goroutine returns, or the loop goes round again.\<close>

datatype ctl = Return | Continue

text \<open>
  The error branch:
  \<^verbatim>\<open>
  if err != nil {
      select {
      case <-h.Closed:
          return
      default:
      }
      if !errors.Is(err, net.ErrClosed) {
          logger.LogPrintf(...)
      }
      time.Sleep(time.Millisecond * 100)
      continue
  }
  \<close>
\<close>

definition readLoop_error :: "hub_id \<Rightarrow> bool \<Rightarrow> world \<Rightarrow> ctl \<times> world" where
  "readLoop_error h is_ErrClosed w =
     (if Closed (heap w h) then (Return, w)
      else (Continue,
            emit ((if \<not> is_ErrClosed then [LogPrintf UdpReadError] else []) @ [Sleep 100]) w))"

text \<open>
  The success branch up to the call of \<open>broadcastToClients\<close>:
  \<^verbatim>\<open>
  data := make([]byte, n)
  copy(data, buf[:n])
  h.BufPool.Put(buf)
  h.Mu.Lock()
  h.LastFrame = data
  clients := make([]chan []byte, 0, len(h.Clients))
  for ch := range h.Clients { clients = append(clients, ch) }
  h.Mu.Unlock()
  monitor.AddAppInboundBytes(uint64(n))
  \<close>
  \<open>data\<close> is never nil, also when \<open>n = 0\<close>.
\<close>

definition readLoop_locked :: "hub_id \<Rightarrow> payload \<Rightarrow> world \<Rightarrow> world" where
  "readLoop_locked h data w =
     (let hub = heap w h;
          clients = clients_of hub
      in emit [AddAppInboundBytes (length data)]
           ((set_hub h (hub\<lparr>LastFrame := Some data\<rparr>) w)
              \<lparr>readers := (readers w)(h := Holding clients data)\<rparr>))"

text \<open>\<open>h.broadcastToClients(clients, data)\<close> with what the reader holds.\<close>

definition readLoop_broadcast :: "hub_id \<Rightarrow> world \<Rightarrow> fault + world" where
  "readLoop_broadcast h w =
     (case readers w h of
        Reading \<Rightarrow> Inr w
      | Holding clients data \<Rightarrow>
          (case broadcastToClients clients data (chans w) of
             Inl p \<Rightarrow> Inl p
           | Inr (log, st) \<Rightarrow> Inr (w\<lparr>chans := st, readers := (readers w)(h := Reading)\<rparr>)))"

text \<open>
  One round of the loop of \<open>readLoop\<close> with no other goroutine in between:
  the poll of \<open>Closed\<close> at the top, the read, and then either branch.
\<close>

definition readLoop_iter :: "hub_id \<Rightarrow> read_result \<Rightarrow> world \<Rightarrow> fault + (ctl \<times> world)" where
  "readLoop_iter h r w =
     (if Closed (heap w h) then Inr (Return, w)
      else case r of
             ReadError is_ErrClosed \<Rightarrow> Inr (readLoop_error h is_ErrClosed w)
           | Datagram data \<Rightarrow>
               (case readLoop_broadcast h (readLoop_locked h data w) of
                  Inl p \<Rightarrow> Inl p
                | Inr w' \<Rightarrow> Inr (Continue, w')))"

subsection \<open>The subscriber session \<open>ServeHTTP\<close>\<close>

text \<open>
  The poll at the top of \<open>ServeHTTP\<close>: a closed hub is answered with 503.
  \<open>True\<close> means the handler goes on.
\<close>

definition ServeHTTP_check :: "hub_id \<Rightarrow> world \<Rightarrow> bool \<times> world" where
  "ServeHTTP_check h w =
     (if Closed (heap w h) then (False, emit [HttpError 503] w) else (True, w))"

text \<open>
  \<^verbatim>\<open>
  ch := make(chan []byte, 20)
  h.AddCh <- ch
  \<close>
  The new queue gets the next unused identity; the session's response body
  starts empty and the session has not returned.
\<close>

definition ServeHTTP_subscribe :: "hub_id \<Rightarrow> world \<Rightarrow> fault + (chan_id \<times> world)" where
  "ServeHTTP_subscribe h w =
     (let ch = next_chan w;
          w' = w\<lparr>chans := (chans w)(ch := make_chan 20),
                 next_chan := Suc ch,
                 response := (response w)(ch := []),
                 returned := (returned w)(ch := False)\<rparr>
      in case send_AddCh h ch w' of
           Inl p \<Rightarrow> Inl p
         | Inr w'' \<Rightarrow> Inr (ch, w''))"

text \<open>
  The check between the subscription and the delivery loop:
  \<^verbatim>\<open>
  flusher, ok := w.(http.Flusher)
  if !ok {
      http.Error(w, "Streaming unsupported!", http.StatusInternalServerError)
      return
  }
  \<close>
\<close>

definition ServeHTTP_flusher :: "bool \<Rightarrow> world \<Rightarrow> ctl \<times> world" where
  "ServeHTTP_flusher ok w = (if ok then (Continue, w) else (Return, emit [HttpError 500] w))"

text \<open>
  How the bounded write of one payload ends: \<open>w.Write\<close> succeeded, it failed
  (with whether the error is \<open>io.EOF\<close> or \<open>net.ErrClosed\<close>), the five seconds
  ran out, or the hub's \<open>Closed\<close> was seen first.
\<close>

datatype write_outcome = Written | WriteFailed bool | WriteTimedOut | WriteSawClosed

text \<open>The branch the outer \<open>select\<close> of the delivery loop takes.\<close>

datatype select_case = FromQueue write_outcome | CtxDone | SawClosed | IdleTimeout

text \<open>
  One round of the delivery loop. A receive from the queue yields the oldest
  buffered payload, also after the queue was closed; from an empty closed
  queue it yields \<open>ok = false\<close> and the handler returns. A branch that is not
  ready (an empty open queue, \<open>Closed\<close> not closed) leaves everything as it is.
  Only a payload whose write succeeded counts as written to the response: a
  payload whose write failed or timed out has left the queue and is lost.
\<close>

definition ServeHTTP_iter :: "hub_id \<Rightarrow> chan_id \<Rightarrow> select_case \<Rightarrow> world \<Rightarrow> ctl \<times> world" where
  "ServeHTTP_iter h ch sc w =
     (case sc of
        FromQueue wo \<Rightarrow>
          (case buf (chans w ch) of
             [] \<Rightarrow> (if closed (chans w ch) then (Return, w) else (Continue, w))
           | data # rest \<Rightarrow>
               (let w' = w\<lparr>chans := (chans w)(ch := (chans w ch)\<lparr>buf := rest\<rparr>)\<rparr>
                in case wo of
                     Written \<Rightarrow>
                       (Continue, w'\<lparr>response := (response w')(ch := response w' ch @ [data])\<rparr>)
                   | WriteFailed benign \<Rightarrow>
                       (Return, emit (if benign then [] else [LogPrintf ClientWriteError]) w')
                   | WriteTimedOut \<Rightarrow> (Return, emit [LogPrintf ClientWriteTimeout] w')
                   | WriteSawClosed \<Rightarrow>
                       (if Closed (heap w h)
                        then (Return, emit [LogPrintf HubClosedDisconnect] w')
                        else (Continue, w))))
      | CtxDone \<Rightarrow> (Return, emit [LogPrintf ClientDisconnected] w)
      | SawClosed \<Rightarrow>
          (if Closed (heap w h) then (Return, emit [LogPrintf HubClosedDisconnect] w)
           else (Continue, w))
      | IdleTimeout \<Rightarrow> (Return, emit [LogPrintf ClientIdleTimeout] w))"

subsection \<open>\<open>TransferClientsTo\<close>\<close>

text \<open>
  \<^verbatim>\<open>
  func (h *StreamHub) TransferClientsTo(newHub *StreamHub) {
      h.Mu.Lock()
      defer h.Mu.Unlock()
      for ch := range h.Clients {
          newHub.Mu.Lock()
          if newHub.LastFrame != nil {
              select { case ch <- newHub.LastFrame: default: }
          }
          newHub.Mu.Unlock()
          newHub.AddCh <- ch
          delete(h.Clients, ch)
      }
  }
  \<close>
  The loop body for the queues still to visit. Locking \<open>newHub.Mu\<close> while
  holding \<open>h.Mu\<close> never returns when both are the same mutex.
\<close>

definition delete_client :: "hub_id \<Rightarrow> chan_id \<Rightarrow> world \<Rightarrow> world" where
  "delete_client h ch w =
     (let hub = heap w h in
      case Clients hub of
        None \<Rightarrow> w
      | Some cs \<Rightarrow> set_hub h (hub\<lparr>Clients := Some (removeAll ch cs)\<rparr>) w)"

fun transfer_loop :: "hub_id \<Rightarrow> hub_id \<Rightarrow> chan_id list \<Rightarrow> world \<Rightarrow> fault + world" where
  "transfer_loop h newHub [] w = Inr w"
| "transfer_loop h newHub (ch # chs) w =
     (if newHub = h then Inl BlockedForever
      else
        (case (case LastFrame (heap w newHub) of
                 None \<Rightarrow> Inr (chans w)
               | Some frame \<Rightarrow>
                   (case try_send ch frame (chans w) of
                      Inl p \<Rightarrow> Inl p
                    | Inr (a, st) \<Rightarrow> Inr st)) of
           Inl p \<Rightarrow> Inl p
         | Inr st \<Rightarrow>
             (case send_AddCh newHub ch (w\<lparr>chans := st\<rparr>) of
                Inl p \<Rightarrow> Inl p
              | Inr w' \<Rightarrow> transfer_loop h newHub chs (delete_client h ch w'))))"

definition TransferClientsTo :: "hub_id \<Rightarrow> hub_id \<Rightarrow> world \<Rightarrow> fault + world" where
  "TransferClientsTo h newHub w = transfer_loop h newHub (clients_of (heap w h)) w"


subsection \<open>\<open>NewStreamHub\<close>\<close>

text \<open>
  The operating system's answers to the four network calls of \<open>NewStreamHub\<close>,
  each reduced to whether it succeeds: \<open>net.ResolveUDPAddr\<close>,
  \<open>net.InterfaceByName\<close>, \<open>net.ListenMulticastUDP\<close> (on the named interface,
  or on the default one for \<open>None\<close>) and \<open>net.ListenUDP\<close>.
\<close>

record net =
  ResolveUDPAddr :: "string \<Rightarrow> bool"
  InterfaceByName :: "string \<Rightarrow> bool"
  ListenMulticastUDP :: "string option \<Rightarrow> string \<Rightarrow> bool"
  ListenUDP :: "string \<Rightarrow> bool"

datatype error = ResolveFailed | ListenFailed

text \<open>
  \<^verbatim>\<open>
  for _, name := range ifaces {
      iface, ierr := net.InterfaceByName(name)
      if ierr != nil { lastErr = ierr; logger.LogPrintf(...); continue }
      conn, err = net.ListenMulticastUDP("udp", iface, addr)
      if err == nil { logger.LogPrintf(...); break }
      lastErr = err
      logger.LogPrintf(...)
  }
  \<close>
  The result says whether \<open>conn\<close> is non-nil after the loop, with the log lines
  written on the way.
\<close>

fun listen_ifaces :: "net \<Rightarrow> string \<Rightarrow> string list \<Rightarrow> bool \<times> effect list" where
  "listen_ifaces env udpAddr [] = (False, [])"
| "listen_ifaces env udpAddr (name # names) =
     (if \<not> InterfaceByName env name
      then (let (ok, es) = listen_ifaces env udpAddr names
            in (ok, LogPrintf (IfaceUnavailable name) # es))
      else if ListenMulticastUDP env (Some name) udpAddr
      then (True, [LogPrintf (ListeningOn udpAddr name)])
      else (let (ok, es) = listen_ifaces env udpAddr names
            in (ok, LogPrintf (ListenFailedOn udpAddr name) # es)))"

text \<open>
  The socket binding of \<open>NewStreamHub\<close> after the address resolved: whether a
  socket was obtained, and the log lines.
\<close>

definition listen_socket :: "net \<Rightarrow> string \<Rightarrow> string list \<Rightarrow> bool \<times> effect list" where
  "listen_socket env udpAddr ifaces =
     (if ifaces = []
      then (if ListenMulticastUDP env None udpAddr \<or> ListenUDP env udpAddr
            then (True, [LogPrintf (ListeningDefault udpAddr)])
            else (False, []))
      else (let (ok, es) = listen_ifaces env udpAddr ifaces
            in if ok then (True, es)
               else if ListenUDP env udpAddr
               then (True, es @ [LogPrintf (FallbackPlainUDP udpAddr)])
               else (False, es)))"

text \<open>
  \<open>NewStreamHub\<close>: on success the hub is allocated with an empty non-nil
  \<open>Clients\<close>, an open socket, \<open>Closed\<close> open and a nil \<open>LastFrame\<close>, and its two
  goroutines \<open>run\<close> and \<open>readLoop\<close> are started.
\<close>

definition NewStreamHub :: "net \<Rightarrow> string \<Rightarrow> string list \<Rightarrow> world \<Rightarrow> (error + hub_id) \<times> world" where
  "NewStreamHub env udpAddr ifaces w =
     (if \<not> ResolveUDPAddr env udpAddr then (Inl ResolveFailed, w)
      else
        (let (ok, es) = listen_socket env udpAddr ifaces in
         if \<not> ok then (Inl ListenFailed, emit es w)
         else
           (let hub = next_hub w in
            (Inr hub,
             emit (es @ [LogPrintf (UdpListening udpAddr ifaces)])
               (w\<lparr>heap := (heap w)(hub := \<lparr>Clients = Some [], UdpConn = Some SocketOpen,
                                           Closed = False, LastFrame = None\<rparr>),
                   next_hub := Suc hub,
                   run_exited := (run_exited w)(hub := False),
                   readers := (readers w)(hub := Reading)\<rparr>)))))"

subsection \<open>\<open>HubKey\<close>\<close>

text \<open>\<open>strings.Join(elems, sep)\<close>.\<close>

fun Join :: "string list \<Rightarrow> string \<Rightarrow> string" where
  "Join [] sep = []"
| "Join [x] sep = x"
| "Join (x # y # ys) sep = x @ sep @ Join (y # ys) sep"

text \<open>\<open>return addr + "|" + strings.Join(ifaces, ",")\<close>\<close>

definition HubKey :: "string \<Rightarrow> string list \<Rightarrow> string" where
  "HubKey addr ifaces = addr @ ''|'' @ Join ifaces '',''"

subsection \<open>\<open>GetOrCreateHub\<close>\<close>

text \<open>
  \<^verbatim>\<open>
  func GetOrCreateHub(udpAddr string, ifaces []string) (*StreamHub, error) {
      key := HubKey(udpAddr, ifaces)
      HubsMu.Lock()
      if hub, ok := Hubs[key]; ok {
          select {
          case <-hub.Closed:
              delete(Hubs, key)
          default:
              HubsMu.Unlock()
              return hub, nil
          }
      }
      HubsMu.Unlock()
      hub, err := NewStreamHub(udpAddr, ifaces)
      if err != nil { return nil, err }
      HubsMu.Lock()
      Hubs[key] = hub
      HubsMu.Unlock()
      return hub, nil
  }
  \<close>
  The first locked section either returns the live hub found under the key or
  leaves the registry without a stale entry; the call is modelled with no other
  goroutine between its two locked sections.
\<close>

definition GetOrCreateHub_lookup :: "string \<Rightarrow> world \<Rightarrow> hub_id option \<times> world" where
  "GetOrCreateHub_lookup key w =
     (case map_of (Hubs w) key of
        None \<Rightarrow> (None, w)
      | Some hub \<Rightarrow>
          (if Closed (heap w hub) then (None, w\<lparr>Hubs := AList.delete key (Hubs w)\<rparr>)
           else (Some hub, w)))"

definition GetOrCreateHub :: "net \<Rightarrow> string \<Rightarrow> string list \<Rightarrow> world \<Rightarrow> (error + hub_id) \<times> world" where
  "GetOrCreateHub env udpAddr ifaces w =
     (let key = HubKey udpAddr ifaces in
      case GetOrCreateHub_lookup key w of
        (Some hub, w') \<Rightarrow> (Inr hub, w')
      | (None, w') \<Rightarrow>
          (case NewStreamHub env udpAddr ifaces w' of
             (Inl err, w'') \<Rightarrow> (Inl err, w'')
           | (Inr hub, w'') \<Rightarrow> (Inr hub, w''\<lparr>Hubs := AList.update key hub (Hubs w'')\<rparr>)))"

section \<open>Interleavings of one hub's goroutines\<close>

text \<open>
  The steps the goroutines around one hub take, each atomic because it runs
  under \<open>h.Mu\<close> or is a single channel operation:
  \<^item> \<open>Subscribe\<close>: a session makes its queue and hands it to the coordinator,
    which runs its \<open>AddCh\<close> branch (the session polled \<open>Closed\<close> at some earlier
    moment, when the hub was open);
  \<^item> \<open>Unsubscribe ch\<close>: the session owning \<open>ch\<close> has returned or returns now,
    its deferred \<open>h.RemoveCh <- ch\<close> is received and the coordinator runs its
    \<open>RemoveCh\<close> branch;
  \<^item> \<open>Receive data\<close>: the reader got \<open>data\<close> from the socket and runs its locked
    section (a broadcast it still holds comes first: the reader reads again
    only after \<open>broadcastToClients\<close> returned);
  \<^item> \<open>Broadcast\<close>: the reader's call of \<open>broadcastToClients\<close>;
  \<^item> \<open>Session ch sc\<close>: the session owning \<open>ch\<close> runs one round of its delivery
    loop, its \<open>select\<close> taking the branch \<open>sc\<close>: it takes the next payload from
    its queue and the write succeeds, fails or times out, or the request is
    cancelled, the hub is seen closed, or the session idles out; a round that
    returns ends the session;
  \<^item> \<open>Unflushable ch\<close>: the response writer of the session owning \<open>ch\<close> is no
    \<open>http.Flusher\<close> and the session returns with status 500 (the source makes
    this check once, before the first round);
  \<^item> \<open>CloseHub\<close>: a call of \<open>Close\<close> from outside;
  \<^item> \<open>CoordinatorClosed\<close>: the coordinator takes its \<open>Closed\<close> branch and returns.
  A step whose goroutine is blocked, or whose branch is not ready, changes
  nothing, and neither does a round of a session that has returned; a panic
  ends the run.
\<close>

datatype event =
    Subscribe
  | Unsubscribe chan_id
  | Receive payload
  | Broadcast
  | Session chan_id select_case
  | Unflushable chan_id
  | CloseHub
  | CoordinatorClosed

definition unless_blocked :: "world \<Rightarrow> fault + world \<Rightarrow> fault + world" where
  "unless_blocked w r = (case r of Inl BlockedForever \<Rightarrow> Inr w | _ \<Rightarrow> r)"

text \<open>
  The state after a session's round or check: a \<open>return\<close> ends the session.
\<close>

definition session_step :: "chan_id \<Rightarrow> ctl \<times> world \<Rightarrow> world" where
  "session_step ch r =
     (case r of
        (Return, w') \<Rightarrow> w'\<lparr>returned := (returned w')(ch := True)\<rparr>
      | (Continue, w') \<Rightarrow> w')"

definition step :: "hub_id \<Rightarrow> event \<Rightarrow> world \<Rightarrow> fault + world" where
  "step h e w =
     (case e of
        Subscribe \<Rightarrow> unless_blocked w (map_sum id snd (ServeHTTP_subscribe h w))
      | Unsubscribe ch \<Rightarrow>
          unless_blocked w (send_RemoveCh h ch (w\<lparr>returned := (returned w)(ch := True)\<rparr>))
      | Receive data \<Rightarrow>
          (case readLoop_broadcast h w of
             Inl p \<Rightarrow> Inl p
           | Inr w' \<Rightarrow> Inr (readLoop_locked h data w'))
      | Broadcast \<Rightarrow> readLoop_broadcast h w
      | Session ch sc \<Rightarrow>
          Inr (if returned w ch then w else session_step ch (ServeHTTP_iter h ch sc w))
      | Unflushable ch \<Rightarrow>
          Inr (if returned w ch then w else session_step ch (ServeHTTP_flusher False w))
      | CloseHub \<Rightarrow> Close h w
      | CoordinatorClosed \<Rightarrow>
          (if Closed (heap w h) \<and> \<not> run_exited w h then run_closed h w else Inr w))"

fun exec :: "hub_id \<Rightarrow> event list \<Rightarrow> world \<Rightarrow> fault + world" where
  "exec h [] w = Inr w"
| "exec h (e # es) w =
     (case step h e w of
        Inl p \<Rightarrow> Inl p
      | Inr w' \<Rightarrow> exec h es w')"

text \<open>The payloads the reader received in a run, in receive order.\<close>

fun received :: "event list \<Rightarrow> payload list" where
  "received [] = []"
| "received (Receive data # es) = data # received es"
| "received (e # es) = received es"

text \<open>The program state at start: nothing allocated, an empty registry.\<close>

definition init_world :: world where
  "init_world =
     \<lparr>chans = (\<lambda>_. make_chan 0),
      heap = (\<lambda>_. \<lparr>Clients = None, UdpConn = None, Closed = False, LastFrame = None\<rparr>),
      Hubs = [],
      next_hub = 0,
      next_chan = 0,
      run_exited = (\<lambda>_. True),
      readers = (\<lambda>_. Reading),
      response = (\<lambda>_. []),
      returned = (\<lambda>_. False),
      effects = []\<rparr>"


subsection \<open>Example states\<close>

text \<open>A machine on which every network call succeeds.\<close>

definition all_ok :: net where
  "all_ok = \<lparr>ResolveUDPAddr = (\<lambda>_. True), InterfaceByName = (\<lambda>_. True),
             ListenMulticastUDP = (\<lambda>_ _. True), ListenUDP = (\<lambda>_. True)\<rparr>"

text \<open>
  The program after one \<open>GetOrCreateHub("239.0.0.1:1234", nil)\<close>: hub 0 is live
  and registered under the key \<open>239.0.0.1:1234|\<close>.
\<close>

definition example_world :: world where
  "example_world = snd (GetOrCreateHub all_ok ''239.0.0.1:1234'' [] init_world)"

text \<open>The example state after two sessions subscribed to hub 0: queues 0 and 1.\<close>

definition two_subscribers :: world where
  "two_subscribers =
     (case exec 0 [Subscribe, Subscribe] example_world of
        Inr w \<Rightarrow> w
      | Inl _ \<Rightarrow> example_world)"

text \<open>
  The example state after the reader of hub 0 received and broadcast one
  datagram, with no subscriber yet.
\<close>

definition primed_world :: world where
  "primed_world =
     (case exec 0 [Receive [0xAA, 0xBB], Broadcast] example_world of
        Inr w \<Rightarrow> w
      | Inl _ \<Rightarrow> example_world)"

text \<open>
  The primed example after a session subscribed (queue 0), and after the reader
  then received \<open>CC\<close> and broadcast it, the session wrote one payload, the reader
  received \<open>DD\<close> and broadcast it, and received \<open>EE\<close>, which it still holds.
\<close>

definition joined_world :: world where
  "joined_world = (case step 0 Subscribe primed_world of Inr w \<Rightarrow> w | Inl _ \<Rightarrow> primed_world)"

definition streamed_world :: world where
  "streamed_world =
     (case exec 0 [Receive [0xCC], Broadcast, Session 0 (FromQueue Written), Receive [0xDD],
                   Broadcast, Receive [0xEE]] joined_world of
        Inr w \<Rightarrow> w
      | Inl _ \<Rightarrow> joined_world)"

text \<open>The example state after one session subscribed to hub 0, before any datagram.\<close>

definition lone_subscriber :: world where
  "lone_subscriber = (case step 0 Subscribe example_world of Inr w \<Rightarrow> w | Inl _ \<Rightarrow> example_world)"

text \<open>
  The state of the two subscribers after a second hub, 1, was created and its
  reader received and broadcast the datagram \<open>F0\<close>: hub 0 has the subscribers
  1 and 0, hub 1 has none and the last frame \<open>F0\<close>.
\<close>

definition migration_world :: world where
  "migration_world =
     (case exec 1 [Receive [0xF0], Broadcast]
             (snd (GetOrCreateHub all_ok ''239.0.0.2:1234'' [] two_subscribers)) of
        Inr w \<Rightarrow> w
      | Inl _ \<Rightarrow> two_subscribers)"

subsection \<open>Auxiliary notions for the statements\<close>

text \<open>
  The store after one non-blocking send of an optional frame to the open queue
  \<open>ch\<close>: nothing is sent when there is no frame.
\<close>

definition prime :: "payload option \<Rightarrow> chan_id \<Rightarrow> store \<Rightarrow> store" where
  "prime fr ch st =
     (case fr of
        None \<Rightarrow> st
      | Some f \<Rightarrow> if length (buf (st ch)) < cap (st ch)
                  then st(ch := (st ch)\<lparr>buf := buf (st ch) @ [f]\<rparr>) else st)"

text \<open>
  What the queue \<open>q\<close> has been given so far: the payloads its session wrote to
  the response, followed by those still waiting in the queue.
\<close>

definition got :: "chan_id \<Rightarrow> world \<Rightarrow> payload list" where
  "got q w = response w q @ buf (chans w q)"

text \<open>
  The payload the reader of hub \<open>h\<close> has received and still has to offer to
  \<open>q\<close>: the one it holds, if \<open>q\<close> is in the snapshot it holds.
\<close>

definition holding :: "hub_id \<Rightarrow> chan_id \<Rightarrow> world \<Rightarrow> payload list" where
  "holding h q w =
     (case readers w h of
        Reading \<Rightarrow> []
      | Holding clients data \<Rightarrow> if q \<in> set clients then [data] else [])"

text \<open>
  Whether the broadcast the reader of hub \<open>h\<close> is about to make overflows
  \<open>q\<close>: the attempt log of \<open>broadcastToClients\<close> records a drop for \<open>q\<close>.
\<close>

definition drops :: "hub_id \<Rightarrow> chan_id \<Rightarrow> world \<Rightarrow> bool" where
  "drops h q w =
     (case readers w h of
        Reading \<Rightarrow> False
      | Holding clients data \<Rightarrow>
          (case broadcastToClients clients data (chans w) of
             Inl p \<Rightarrow> False
           | Inr (log, st) \<Rightarrow> (q, Dropped) \<in> set log))"

text \<open>Whether \<open>q\<close> overflows at some broadcast of the run \<open>es\<close> from \<open>w\<close>.\<close>

fun overflows :: "hub_id \<Rightarrow> chan_id \<Rightarrow> event list \<Rightarrow> world \<Rightarrow> bool" where
  "overflows h q [] w = False"
| "overflows h q (e # es) w =
     ((case e of Receive data \<Rightarrow> drops h q w | Broadcast \<Rightarrow> drops h q w | _ \<Rightarrow> False)
      \<or> (case step h e w of Inl p \<Rightarrow> False | Inr w' \<Rightarrow> overflows h q es w'))"

text \<open>
  A hub as \<open>NewStreamHub\<close> leaves it: an empty non-nil subscriber set, not
  closed, no last frame, the reader about to read.
\<close>

definition fresh_hub :: "hub_id \<Rightarrow> world \<Rightarrow> bool" where
  "fresh_hub h w =
     (Clients (heap w h) = Some [] \<and> \<not> Closed (heap w h) \<and> LastFrame (heap w h) = None
      \<and> readers w h = Reading)"

text \<open>
  The frame a subscriber joining hub \<open>h\<close> in state \<open>w\<close> is primed with.
\<close>

definition priming :: "hub_id \<Rightarrow> world \<Rightarrow> payload list" where
  "priming h w = (case LastFrame (heap w h) of None \<Rightarrow> [] | Some frame \<Rightarrow> [frame])"

text \<open>
  What every run keeps true of a hub: its subscriber set and the snapshot its
  reader holds name each queue once and only queues that have been made, and a
  closed hub has a nil set.
\<close>

definition hub_wf :: "hub_id \<Rightarrow> world \<Rightarrow> bool" where
  "hub_wf h w =
     (distinct (clients_of (heap w h))
      \<and> (\<forall>c \<in> set (clients_of (heap w h)). c < next_chan w)
      \<and> (case readers w h of
           Reading \<Rightarrow> True
         | Holding clients data \<Rightarrow> distinct clients \<and> (\<forall>c \<in> set clients. c < next_chan w))
      \<and> (Closed (heap w h) \<longrightarrow> Clients (heap w h) = None))"


section \<open>Properties of the channel operations\<close>

lemma try_send_open:
  "\<not> closed (st ch) \<Longrightarrow>
   try_send ch data st =
     Inr (if length (buf (st ch)) < cap (st ch) then Enqueued else Dropped,
          if length (buf (st ch)) < cap (st ch)
          then st(ch := (st ch)\<lparr>buf := buf (st ch) @ [data]\<rparr>) else st)"
  by (simp add: try_send_def Let_def)

lemma try_send_closed:
  "closed (st ch) \<Longrightarrow> try_send ch data st = Inl SendOnClosedChannel"
  by (simp add: try_send_def Let_def)

text \<open>
  As long as every queue of the snapshot is open, \<open>broadcastToClients\<close> on a
  snapshot of the subscriber map (its keys, so no queue occurs twice) makes
  exactly one send attempt per queue, in snapshot order: the attempt on a queue
  with free capacity enqueues the payload at the tail of that queue, the attempt
  on a full queue drops the payload for that queue alone, every other queue of
  the snapshot still gets its own attempt, and queues outside the snapshot are
  left as they were.
\<close>

lemma broadcastToClients_one_attempt_per_queue:
  assumes "\<forall>ch \<in> set clients. \<not> closed (st ch)" and "distinct clients"
  shows "broadcastToClients clients data st =
     Inr (map (\<lambda>ch. (ch, if length (buf (st ch)) < cap (st ch) then Enqueued else Dropped)) clients,
          (\<lambda>ch. if ch \<in> set clients \<and> length (buf (st ch)) < cap (st ch)
                then (st ch)\<lparr>buf := buf (st ch) @ [data]\<rparr> else st ch))"
  using assms
proof (induction clients arbitrary: st)
  case Nil
  then show ?case by simp
next
  case (Cons c cs)
  let ?st1 = "if length (buf (st c)) < cap (st c)
          then st(c := (st c)\<lparr>buf := buf (st c) @ [data]\<rparr>) else st"
  have open1: "\<forall>ch \<in> set cs. \<not> closed (?st1 ch)" using Cons.prems by auto
  have same: "\<forall>ch \<in> set cs. ?st1 ch = st ch" using Cons.prems by auto
  have ih: "broadcastToClients cs data ?st1 =
      Inr (map (\<lambda>ch. (ch, if length (buf (?st1 ch)) < cap (?st1 ch) then Enqueued else Dropped)) cs,
          (\<lambda>ch. if ch \<in> set cs \<and> length (buf (?st1 ch)) < cap (?st1 ch)
                then (?st1 ch)\<lparr>buf := buf (?st1 ch) @ [data]\<rparr> else ?st1 ch))"
    using Cons.IH[OF open1] Cons.prems by simp
  have m: "map (\<lambda>ch. (ch, if length (buf (?st1 ch)) < cap (?st1 ch) then Enqueued else Dropped)) cs
     = map (\<lambda>ch. (ch, if length (buf (st ch)) < cap (st ch) then Enqueued else Dropped)) cs"
    using same by (intro map_cong) auto
  have f: "(\<lambda>ch. if ch \<in> set cs \<and> length (buf (?st1 ch)) < cap (?st1 ch)
                then (?st1 ch)\<lparr>buf := buf (?st1 ch) @ [data]\<rparr> else ?st1 ch)
      = (\<lambda>ch. if ch \<in> set (c # cs) \<and> length (buf (st ch)) < cap (st ch)
                then (st ch)\<lparr>buf := buf (st ch) @ [data]\<rparr> else st ch)"
    using Cons.prems by (auto simp: fun_eq_iff)
  have ts: "try_send c data st =
      Inr (if length (buf (st c)) < cap (st c) then Enqueued else Dropped, ?st1)"
    using try_send_open[of st c data] Cons.prems by simp
  show ?case
    unfolding broadcastToClients.simps ts using ih m f by simp
qed

text \<open>
  An instance: queue 0 has room, queue 1 is full, queue 2 has room again. The
  full queue in the middle loses the payload and the queues on either side get it.
\<close>

lemma broadcastToClients_example:
  "(case broadcastToClients [0, 1, 2] [0xAA]
           (\<lambda>c. if c = 1 then \<lparr>buf = [[0x01]], cap = 1, closed = False\<rparr> else make_chan 20) of
      Inl p \<Rightarrow> False
    | Inr (log, st') \<Rightarrow>
        log = [(0, Enqueued), (1, Dropped), (2, Enqueued)]
        \<and> buf (st' 0) = [[0xAA]] \<and> buf (st' 1) = [[0x01]] \<and> buf (st' 2) = [[0xAA]]
        \<and> buf (st' 3) = [])"
  using broadcastToClients_one_attempt_per_queue
          [of "[0, 1, 2]"
              "\<lambda>c. if c = 1 then \<lparr>buf = [[0x01]], cap = 1, closed = False\<rparr> else make_chan 20"
              "[0xAA]"]
  by (simp add: make_chan_def)



lemma close_chan_open:
  "\<not> closed (st ch) \<Longrightarrow> close_chan ch st = Inr (st(ch := (st ch)\<lparr>closed := True\<rparr>))"
  by (simp add: close_chan_def Let_def)

lemma close_all_open:
  "distinct chs \<Longrightarrow> \<forall>ch \<in> set chs. \<not> closed (st ch) \<Longrightarrow>
   close_all chs st = Inr (\<lambda>c. if c \<in> set chs then (st c)\<lparr>closed := True\<rparr> else st c)"
proof (induction chs arbitrary: st)
  case Nil
  then show ?case by simp
next
  case (Cons c cs)
  let ?st1 = "st(c := (st c)\<lparr>closed := True\<rparr>)"
  have "close_all cs ?st1 = Inr (\<lambda>x. if x \<in> set cs then (?st1 x)\<lparr>closed := True\<rparr> else ?st1 x)"
    using Cons.prems by (intro Cons.IH) auto
  moreover have "(\<lambda>x. if x \<in> set cs then (?st1 x)\<lparr>closed := True\<rparr> else ?st1 x)
      = (\<lambda>x. if x \<in> set (c # cs) then (st x)\<lparr>closed := True\<rparr> else st x)"
    using Cons.prems by (auto simp: fun_eq_iff)
  ultimately show ?case using Cons.prems by (simp add: close_chan_open)
qed

text \<open>
  A round of the reader that gets a datagram, when no other goroutine comes in
  between and the hub's queues are open: the hub's last frame is the datagram,
  and every queue of the hub got its one attempt.
\<close>

lemma readLoop_iter_Datagram:
  assumes "\<not> Closed (heap w h)" and "distinct (clients_of (heap w h))"
      and "\<forall>ch \<in> set (clients_of (heap w h)). \<not> closed (chans w ch)"
  shows "readLoop_iter h (Datagram data) w =
     Inr (Continue,
          (readLoop_locked h data w)
            \<lparr>chans := (\<lambda>ch. if ch \<in> set (clients_of (heap w h))
                                  \<and> length (buf (chans w ch)) < cap (chans w ch)
                               then (chans w ch)\<lparr>buf := buf (chans w ch) @ [data]\<rparr>
                               else chans w ch),
              readers := (readers w)(h := Reading)\<rparr>)"
proof -
  let ?w = "readLoop_locked h data w"
  let ?st = "\<lambda>ch. if ch \<in> set (clients_of (heap w h))
                                  \<and> length (buf (chans w ch)) < cap (chans w ch)
                               then (chans w ch)\<lparr>buf := buf (chans w ch) @ [data]\<rparr>
                               else chans w ch"
  have r: "readers ?w h = Holding (clients_of (heap w h)) data" "chans ?w = chans w"
    "(readers ?w)(h := Reading) = (readers w)(h := Reading)"
    by (simp_all add: readLoop_locked_def Let_def emit_def set_hub_def)
  note b = broadcastToClients_one_attempt_per_queue[OF assms(3) assms(2), of data]
  have "readLoop_broadcast h ?w = Inr (?w\<lparr>chans := ?st, readers := (readers ?w)(h := Reading)\<rparr>)"
    unfolding readLoop_broadcast_def r(1) r(2) reader.case b by simp
  then show ?thesis using assms(1) unfolding r(3) by (simp add: readLoop_iter_def)
qed


section \<open>Evaluating the example states\<close>

lemmas eval_defs = GetOrCreateHub_def GetOrCreateHub_lookup_def NewStreamHub_def listen_socket_def
  all_ok_def init_world_def HubKey_def Let_def emit_def example_world_def make_chan_def

lemma example_world_Hubs: "Hubs example_world = [(''239.0.0.1:1234|'', 0)]"
  by (simp add: eval_defs)

lemma example_world_hub:
  "heap example_world 0 =
     \<lparr>Clients = Some [], UdpConn = Some SocketOpen, Closed = False, LastFrame = None\<rparr>"
  by (simp add: eval_defs)

lemmas step_defs = step_def unless_blocked_def ServeHTTP_subscribe_def send_AddCh_def run_add_def
  send_RemoveCh_def run_remove_def run_closed_def readLoop_locked_def readLoop_broadcast_def
  ServeHTTP_iter_def Close_def set_hub_def clients_of_def try_send_def close_chan_def unregister_def

lemma example_world_run: "run_exited example_world 0 = False"
  by (simp add: eval_defs)

lemma example_world_next_chan: "next_chan example_world = 0"
  by (simp add: eval_defs)

lemma example_world_readers: "readers example_world 0 = Reading"
  by (simp add: eval_defs)

lemma example_world_chans: "chans example_world c = make_chan 0"
  by (simp add: eval_defs)

lemma two_subscribers_hub:
  "heap two_subscribers 0 =
     \<lparr>Clients = Some [1, 0], UdpConn = Some SocketOpen, Closed = False, LastFrame = None\<rparr>"
  by (simp add: two_subscribers_def step_defs example_world_hub example_world_run
        example_world_next_chan emit_def Let_def)

lemma two_subscribers_chans:
  "chans two_subscribers 0 = make_chan 20" "chans two_subscribers (Suc 0) = make_chan 20"
  by (simp_all add: two_subscribers_def step_defs example_world_hub example_world_run
        example_world_next_chan emit_def Let_def)

lemma two_subscribers_Hubs: "Hubs two_subscribers = [(''239.0.0.1:1234|'', 0)]"
  by (simp add: two_subscribers_def step_defs example_world_hub example_world_Hubs
        example_world_run example_world_next_chan emit_def Let_def)

lemma primed_world_hub:
  "heap primed_world 0 =
     \<lparr>Clients = Some [], UdpConn = Some SocketOpen, Closed = False,
      LastFrame = Some [0xAA, 0xBB]\<rparr>"
  by (simp add: primed_world_def step_defs example_world_hub example_world_readers emit_def Let_def)

lemma primed_world_rest:
  "run_exited primed_world 0 = False" "next_chan primed_world = 0"
  "chans primed_world c = make_chan 0"
  by (simp_all add: primed_world_def step_defs example_world_hub example_world_readers
        example_world_run example_world_next_chan example_world_chans emit_def Let_def)

lemma two_subscribers_next_hub: "next_hub two_subscribers = 1"
  by (simp add: two_subscribers_def step_defs example_world_hub example_world_run
        example_world_next_chan emit_def Let_def) (simp add: eval_defs)

lemma second_hub:
  "GetOrCreateHub all_ok ''239.0.0.2:1234'' [] two_subscribers =
     (Inr 1, emit [LogPrintf (ListeningDefault ''239.0.0.2:1234''), LogPrintf (UdpListening ''239.0.0.2:1234'' [])]
        (two_subscribers\<lparr>heap := (heap two_subscribers)(1 := \<lparr>Clients = Some [], UdpConn = Some SocketOpen, Closed = False, LastFrame = None\<rparr>),
                   next_hub := 2,
                   run_exited := (run_exited two_subscribers)(1 := False),
                   readers := (readers two_subscribers)(1 := Reading),
                   Hubs := [(''239.0.0.1:1234|'', 0), (''239.0.0.2:1234|'', 1)]\<rparr>))"
  by (simp add: GetOrCreateHub_def GetOrCreateHub_lookup_def NewStreamHub_def listen_socket_def
        all_ok_def HubKey_def Let_def emit_def two_subscribers_Hubs two_subscribers_next_hub)

lemma migration_world_hubs:
  "heap migration_world 0 =
     \<lparr>Clients = Some [1, 0], UdpConn = Some SocketOpen, Closed = False, LastFrame = None\<rparr>"
  "heap migration_world (Suc 0) =
     \<lparr>Clients = Some [], UdpConn = Some SocketOpen, Closed = False, LastFrame = Some [0xF0]\<rparr>"
  "run_exited migration_world (Suc 0) = False"
  "chans migration_world 0 = make_chan 20" "chans migration_world (Suc 0) = make_chan 20"
  by (simp_all add: migration_world_def second_hub step_def readLoop_broadcast_def readLoop_locked_def
        set_hub_def clients_of_def emit_def Let_def two_subscribers_hub two_subscribers_chans)

section \<open>The registry\<close>

lemma NewStreamHub_Inr:
  "NewStreamHub env a i w = (Inr hub, w') \<Longrightarrow>
     hub = next_hub w \<and> next_hub w' = Suc (next_hub w) \<and> Hubs w' = Hubs w \<and> chans w' = chans w
     \<and> heap w' = (heap w)(hub := \<lparr>Clients = Some [], UdpConn = Some SocketOpen,
                                    Closed = False, LastFrame = None\<rparr>)
     \<and> run_exited w' = (run_exited w)(hub := False) \<and> readers w' = (readers w)(hub := Reading)"
  by (auto simp: NewStreamHub_def Let_def emit_def split: if_splits prod.splits)

lemma NewStreamHub_Inl:
  "NewStreamHub env a i w = (Inl err, w') \<Longrightarrow>
     Hubs w' = Hubs w \<and> heap w' = heap w \<and> chans w' = chans w \<and> next_hub w' = next_hub w"
  by (auto simp: NewStreamHub_def Let_def emit_def split: if_splits prod.splits)

lemma GetOrCreateHub_live:
  "map_of (Hubs w) (HubKey udpAddr ifaces) = Some hub \<Longrightarrow> \<not> Closed (heap w hub) \<Longrightarrow>
   GetOrCreateHub env udpAddr ifaces w = (Inr hub, w)"
  by (simp add: GetOrCreateHub_def GetOrCreateHub_lookup_def)

lemma GetOrCreateHub_stale:
  "map_of (Hubs w) (HubKey udpAddr ifaces) = Some hub \<Longrightarrow> Closed (heap w hub) \<Longrightarrow>
   GetOrCreateHub env udpAddr ifaces w =
     (case NewStreamHub env udpAddr ifaces
             (w\<lparr>Hubs := AList.delete (HubKey udpAddr ifaces) (Hubs w)\<rparr>) of
        (Inl err, w') \<Rightarrow> (Inl err, w')
      | (Inr hub', w') \<Rightarrow>
          (Inr hub', w'\<lparr>Hubs := AList.update (HubKey udpAddr ifaces) hub' (Hubs w')\<rparr>))"
  by (simp add: GetOrCreateHub_def GetOrCreateHub_lookup_def Let_def)

lemma GetOrCreateHub_registers:
  "GetOrCreateHub env a i w = (Inr hub, w') \<Longrightarrow>
     map_of (Hubs w') (HubKey a i) = Some hub \<and> \<not> Closed (heap w' hub)"
  by (auto simp: GetOrCreateHub_def GetOrCreateHub_lookup_def update_conv Let_def
           dest!: NewStreamHub_Inr split: option.splits if_splits prod.splits sum.splits)

text \<open>
  \<^bold>\<open>C8.\<close> Let the registry hold \<open>hub\<close> under \<open>HubKey udpAddr ifaces\<close>. If
  \<open>hub\<close> is not closed, \<open>GetOrCreateHub\<close> returns that very hub and changes
  nothing (no hub is constructed). If \<open>hub\<close> is closed, the stale entry is
  deleted and \<open>NewStreamHub\<close> is run on the registry without it: when it
  succeeds, the hub it constructed (a new identity, in the state of a fresh
  hub) is returned and is what the key maps to afterwards; when it fails, its
  error is returned and the key maps to nothing. Either way the other keys of
  the registry keep their entries.
\<close>

theorem GetOrCreateHub_found:
  assumes "map_of (Hubs w) (HubKey udpAddr ifaces) = Some hub"
  shows "(\<not> Closed (heap w hub) \<longrightarrow>
            GetOrCreateHub env udpAddr ifaces w = (Inr hub, w))
       \<and> (Closed (heap w hub) \<longrightarrow>
            (case GetOrCreateHub env udpAddr ifaces w of
               (Inr hub', w') \<Rightarrow>
                  fst (NewStreamHub env udpAddr ifaces
                         (w\<lparr>Hubs := AList.delete (HubKey udpAddr ifaces) (Hubs w)\<rparr>)) = Inr hub'
                  \<and> hub' = next_hub w \<and> next_hub w' = Suc (next_hub w)
                  \<and> heap w' hub' = \<lparr>Clients = Some [], UdpConn = Some SocketOpen,
                                      Closed = False, LastFrame = None\<rparr>
                  \<and> map_of (Hubs w') (HubKey udpAddr ifaces) = Some hub'
                  \<and> (\<forall>k. k \<noteq> HubKey udpAddr ifaces \<longrightarrow> map_of (Hubs w') k = map_of (Hubs w) k)
             | (Inl err, w') \<Rightarrow>
                  fst (NewStreamHub env udpAddr ifaces
                         (w\<lparr>Hubs := AList.delete (HubKey udpAddr ifaces) (Hubs w)\<rparr>)) = Inl err
                  \<and> map_of (Hubs w') (HubKey udpAddr ifaces) = None
                  \<and> next_hub w' = next_hub w
                  \<and> (\<forall>k. k \<noteq> HubKey udpAddr ifaces \<longrightarrow> map_of (Hubs w') k = map_of (Hubs w) k)))"
proof (intro conjI impI)
  assume "\<not> Closed (heap w hub)"
  then show "GetOrCreateHub env udpAddr ifaces w = (Inr hub, w)"
    using assms by (rule_tac GetOrCreateHub_live)
next
  let ?key = "HubKey udpAddr ifaces"
  let ?w1 = "w\<lparr>Hubs := AList.delete ?key (Hubs w)\<rparr>"
  assume c: "Closed (heap w hub)"
  obtain r w2 where n: "NewStreamHub env udpAddr ifaces ?w1 = (r, w2)"
    by (cases "NewStreamHub env udpAddr ifaces ?w1")
  show "case GetOrCreateHub env udpAddr ifaces w of
               (Inr hub', w') \<Rightarrow>
                  fst (NewStreamHub env udpAddr ifaces ?w1) = Inr hub'
                  \<and> hub' = next_hub w \<and> next_hub w' = Suc (next_hub w)
                  \<and> heap w' hub' = \<lparr>Clients = Some [], UdpConn = Some SocketOpen,
                                      Closed = False, LastFrame = None\<rparr>
                  \<and> map_of (Hubs w') ?key = Some hub'
                  \<and> (\<forall>k. k \<noteq> ?key \<longrightarrow> map_of (Hubs w') k = map_of (Hubs w) k)
             | (Inl err, w') \<Rightarrow>
                  fst (NewStreamHub env udpAddr ifaces ?w1) = Inl err
                  \<and> map_of (Hubs w') ?key = None
                  \<and> next_hub w' = next_hub w
                  \<and> (\<forall>k. k \<noteq> ?key \<longrightarrow> map_of (Hubs w') k = map_of (Hubs w) k)"
  proof (cases r)
    case (Inl err)
    with n NewStreamHub_Inl[of env udpAddr ifaces ?w1 err w2] show ?thesis
      using GetOrCreateHub_stale[OF assms c, of env]
      by (simp add: delete_conv)
  next
    case (Inr hub')
    with n NewStreamHub_Inr[of env udpAddr ifaces ?w1 hub' w2] show ?thesis
      using GetOrCreateHub_stale[OF assms c, of env]
      by (simp add: delete_conv update_conv)
  qed
qed

text \<open>
  Both cases on the example state: the live hub 0 is returned as it is; once
  hub 0 is closed but still registered, hub 1 is constructed and takes the key.
\<close>

theorem GetOrCreateHub_found_witness:
  "fst (GetOrCreateHub all_ok ''239.0.0.1:1234'' [] example_world) = Inr 0
   \<and> snd (GetOrCreateHub all_ok ''239.0.0.1:1234'' [] example_world) = example_world
   \<and> fst (GetOrCreateHub all_ok ''239.0.0.1:1234'' []
        (example_world\<lparr>heap := (heap example_world)
                                 (0 := (heap example_world 0)\<lparr>Closed := True\<rparr>)\<rparr>)) = Inr 1
   \<and> map_of (Hubs (snd (GetOrCreateHub all_ok ''239.0.0.1:1234'' []
        (example_world\<lparr>heap := (heap example_world)
                                 (0 := (heap example_world 0)\<lparr>Closed := True\<rparr>)\<rparr>))))
        ''239.0.0.1:1234|'' = Some 1"
  using GetOrCreateHub_found[of example_world "''239.0.0.1:1234''" "[]" 0 all_ok]
        GetOrCreateHub_found
          [of "example_world\<lparr>heap := (heap example_world)
                                       (0 := (heap example_world 0)\<lparr>Closed := True\<rparr>)\<rparr>"
              "''239.0.0.1:1234''" "[]" 0 all_ok]
  by (simp add: eval_defs)

text \<open>
  \<^bold>\<open>C10\<close>, as stated, fails in its second example: the address \<open>a|x\<close> with no
  interfaces has the key \<open>a|x|\<close>, the address \<open>a\<close> with the interface \<open>x\<close>
  has the key \<open>a|x\<close>.
\<close>

theorem HubKey_second_example_distinct:
  "HubKey ''a|x'' [] \<noteq> HubKey ''a'' [''x'']"
  by (simp add: HubKey_def)

text \<open>
  \<^bold>\<open>C10\<close>, amended: \<open>HubKey\<close> is not injective. The address \<open>a\<close> with the
  interfaces \<open>x\<close>, \<open>y\<close> and the address \<open>a\<close> with the single interface \<open>x,y\<close>
  are different inputs with the same key, so once \<open>GetOrCreateHub\<close> has
  returned a hub for the first, a call for the second returns that same hub
  and constructs nothing.
\<close>

theorem HubKey_collision:
  "HubKey ''a'' [''x'', ''y''] = HubKey ''a'' [''x,y'']
   \<and> [''x'', ''y''] \<noteq> [''x,y'']
   \<and> \<not> inj (\<lambda>(addr, ifaces). HubKey addr ifaces)
   \<and> (GetOrCreateHub env ''a'' [''x'', ''y''] w = (Inr hub, w') \<longrightarrow>
        GetOrCreateHub env' ''a'' [''x,y''] w' = (Inr hub, w'))"
proof -
  have k: "HubKey ''a'' [''x'', ''y''] = HubKey ''a'' [''x,y'']" by (simp add: HubKey_def)
  have ninj: "\<not> inj (\<lambda>(addr, ifaces). HubKey addr ifaces)"
  proof
    assume "inj (\<lambda>(addr, ifaces). HubKey addr ifaces)"
    from injD[OF this, of "(''a'', [''x'', ''y''])" "(''a'', [''x,y''])"] k
    show False by simp
  qed
  have g: "GetOrCreateHub env ''a'' [''x'', ''y''] w = (Inr hub, w') \<longrightarrow>
        GetOrCreateHub env' ''a'' [''x,y''] w' = (Inr hub, w')"
  proof
    assume "GetOrCreateHub env ''a'' [''x'', ''y''] w = (Inr hub, w')"
    from GetOrCreateHub_registers[OF this]
    show "GetOrCreateHub env' ''a'' [''x,y''] w' = (Inr hub, w')"
      unfolding k by (intro GetOrCreateHub_live) auto
  qed
  show ?thesis using k ninj g by simp
qed

theorem HubKey_collision_witness:
  "fst (GetOrCreateHub all_ok ''a'' [''x'', ''y''] init_world) = Inr 0
   \<and> fst (GetOrCreateHub all_ok ''a'' [''x,y'']
            (snd (GetOrCreateHub all_ok ''a'' [''x'', ''y''] init_world))) = Inr 0"
  using HubKey_collision
          [of all_ok init_world 0 "snd (GetOrCreateHub all_ok ''a'' [''x'', ''y''] init_world)" all_ok]
  by (simp add: eval_defs)

section \<open>The reader's error branch\<close>

text \<open>
  \<^bold>\<open>C7\<close>, as stated, fails: on hub 0 of the example state, which is not closed,
  a read that fails with \<open>net.ErrClosed\<close> does not make the reader return. It
  logs nothing, sleeps 100 ms and goes round the loop again.
\<close>

theorem readLoop_ErrClosed_retries:
  "readLoop_iter 0 (ReadError True) example_world =
     Inr (Continue, emit [Sleep 100] example_world)"
  by (simp add: readLoop_iter_def readLoop_error_def example_world_hub)

text \<open>
  \<^bold>\<open>C7\<close>, amended: in a round of the reader loop whose read fails, the reader
  returns exactly when it finds the hub's \<open>Closed\<close> closed, and then without
  logging or sleeping. Otherwise it logs the error unless the error is
  \<open>net.ErrClosed\<close>, and in both cases sleeps 100 ms and retries. The calls to
  the logger and to \<open>time.Sleep\<close> are all the branch does: nothing else of the
  state changes. A whole round whose read fails ends as this branch does.
\<close>

theorem readLoop_read_error:
  "fst (readLoop_error h is_ErrClosed w) = (if Closed (heap w h) then Return else Continue)
   \<and> effects (snd (readLoop_error h is_ErrClosed w)) =
       effects w @ (if Closed (heap w h) then []
                    else (if is_ErrClosed then [] else [LogPrintf UdpReadError]) @ [Sleep 100])
   \<and> (snd (readLoop_error h is_ErrClosed w))\<lparr>effects := effects w\<rparr> = w
   \<and> readLoop_iter h (ReadError is_ErrClosed) w = Inr (readLoop_error h is_ErrClosed w)"
  by (simp add: readLoop_iter_def readLoop_error_def emit_def)

section \<open>\<open>Close\<close>\<close>

lemma Close_closed: "Closed (heap w h) \<Longrightarrow> Close h w = Inr w"
  by (simp add: Close_def)

lemma Close_open:
  assumes "\<not> Closed (heap w h)" "distinct (clients_of (heap w h))"
     "\<forall>ch \<in> set (clients_of (heap w h)). \<not> closed (chans w ch)"
  shows "Close h w =
     Inr (emit [LogPrintf UdpListenerClosed]
           (w\<lparr>chans := (\<lambda>c. if c \<in> set (clients_of (heap w h))
                              then (chans w c)\<lparr>closed := True\<rparr> else chans w c),
              heap := (heap w)(h := (heap w h)\<lparr>Clients := None,
                                         UdpConn := map_option (\<lambda>_. SocketClosed) (UdpConn (heap w h)),
                                         Closed := True\<rparr>),
              Hubs := unregister h (Hubs w)\<rparr>))"
  using assms by (simp add: Close_def Let_def close_all_open)

lemma Close_times_fix: "Close h w1 = Inr w1 \<Longrightarrow> Close_times n h w1 = Inr w1"
  by (induction n) auto

text \<open>
  \<^bold>\<open>C5.\<close> On a hub whose subscriber queues are open (and, being map keys,
  distinct), \<open>Close\<close> returns. If the hub was not closed, the call closes
  \<open>Closed\<close>, closes the socket, closes exactly the queues of the subscriber set
  (leaving their contents), sets the set to nil and removes the hub from the
  registry. If it was closed, the call changes nothing. So a second call on the
  result changes nothing, and any number \<open>n + 1\<close> of calls in a row ends in the
  state the first call produced.
\<close>

theorem Close_idempotent:
  assumes "distinct (clients_of (heap w h))"
      and "\<forall>ch \<in> set (clients_of (heap w h)). \<not> closed (chans w ch)"
  shows "\<exists>w1. Close h w = Inr w1
     \<and> Closed (heap w1 h)
     \<and> (if Closed (heap w h) then w1 = w
        else Clients (heap w1 h) = None
           \<and> UdpConn (heap w1 h) = map_option (\<lambda>_. SocketClosed) (UdpConn (heap w h))
           \<and> (\<forall>ch. closed (chans w1 ch) = (ch \<in> set (clients_of (heap w h)) \<or> closed (chans w ch)))
           \<and> (\<forall>ch. buf (chans w1 ch) = buf (chans w ch))
           \<and> Hubs w1 = unregister h (Hubs w))
     \<and> Close h w1 = Inr w1
     \<and> (\<forall>n. Close_times (Suc n) h w = Inr w1)"
proof (cases "Closed (heap w h)")
  case True
  then have c: "Close h w = Inr w" by (rule Close_closed)
  then have "\<forall>n. Close_times (Suc n) h w = Inr w" using Close_times_fix[OF c] by simp
  with c True show ?thesis by simp
next
  case False
  from Close_open[OF False assms] obtain w1 where
    c: "Close h w = Inr w1" and
    w1: "w1 = emit [LogPrintf UdpListenerClosed]
           (w\<lparr>chans := (\<lambda>c. if c \<in> set (clients_of (heap w h))
                              then (chans w c)\<lparr>closed := True\<rparr> else chans w c),
              heap := (heap w)(h := (heap w h)\<lparr>Clients := None,
                                         UdpConn := map_option (\<lambda>_. SocketClosed) (UdpConn (heap w h)),
                                         Closed := True\<rparr>),
              Hubs := unregister h (Hubs w)\<rparr>)" by simp
  have cl: "Closed (heap w1 h)" by (simp add: w1 emit_def)
  then have c1: "Close h w1 = Inr w1" by (rule Close_closed)
  have "\<forall>n. Close_times (Suc n) h w = Inr w1" using c Close_times_fix[OF c1] by simp
  moreover have "Clients (heap w1 h) = None
           \<and> UdpConn (heap w1 h) = map_option (\<lambda>_. SocketClosed) (UdpConn (heap w h))
           \<and> (\<forall>ch. closed (chans w1 ch) = (ch \<in> set (clients_of (heap w h)) \<or> closed (chans w ch)))
           \<and> (\<forall>ch. buf (chans w1 ch) = buf (chans w ch))
           \<and> Hubs w1 = unregister h (Hubs w)"
    by (simp add: w1 emit_def)
  ultimately show ?thesis using c cl c1 False by simp
qed



text \<open>
  On the example with two subscribers: one call closes hub 0 and both queues and
  empties the registry; a second call, and three calls in a row, give that state.
\<close>

theorem Close_idempotent_witness:
  "(case Close 0 two_subscribers of
      Inl p \<Rightarrow> False
    | Inr w1 \<Rightarrow>
        Closed (heap w1 0) \<and> Clients (heap w1 0) = None \<and> UdpConn (heap w1 0) = Some SocketClosed
        \<and> closed (chans w1 0) \<and> closed (chans w1 1) \<and> Hubs w1 = []
        \<and> Close 0 w1 = Inr w1 \<and> Close_times 3 0 two_subscribers = Inr w1)"
proof -
  have d: "distinct (clients_of (heap two_subscribers 0))"
    by (simp add: two_subscribers_hub clients_of_def)
  have o: "\<forall>ch \<in> set (clients_of (heap two_subscribers 0)). \<not> closed (chans two_subscribers ch)"
    by (auto simp: two_subscribers_hub clients_of_def two_subscribers_chans make_chan_def)
  from Close_idempotent[OF d o] obtain w1 where
    c: "Close 0 two_subscribers = Inr w1" and
    r: "Closed (heap w1 0)"
       "if Closed (heap two_subscribers 0) then w1 = two_subscribers
        else Clients (heap w1 0) = None
           \<and> UdpConn (heap w1 0) = map_option (\<lambda>_. SocketClosed) (UdpConn (heap two_subscribers 0))
           \<and> (\<forall>ch. closed (chans w1 ch) = (ch \<in> set (clients_of (heap two_subscribers 0)) \<or> closed (chans two_subscribers ch)))
           \<and> (\<forall>ch. buf (chans w1 ch) = buf (chans two_subscribers ch))
           \<and> Hubs w1 = unregister 0 (Hubs two_subscribers)"
       "Close 0 w1 = Inr w1"
       "\<forall>n. Close_times (Suc n) 0 two_subscribers = Inr w1"
    by blast
  have t: "Close_times 3 0 two_subscribers = Inr w1"
    using r(4) by (simp only: numeral_3_eq_3)
  show ?thesis
    using c r(1,2,3) t by (simp add: two_subscribers_hub two_subscribers_Hubs clients_of_def unregister_def)
qed


section \<open>The coordinator\<close>

lemma run_add_open:
  assumes "Clients (heap w h) = Some cs" "LastFrame (heap w h) = Some frame" "\<not> closed (chans w ch)"
  shows "run_add h ch w =
     Inr (emit [LogPrintf (ClientJoined (length (List.insert ch cs)))]
            ((set_hub h ((heap w h)\<lparr>Clients := Some (List.insert ch cs)\<rparr>) w)
               \<lparr>chans := (if length (buf (chans w ch)) < cap (chans w ch)
                          then (chans w)(ch := (chans w ch)\<lparr>buf := buf (chans w ch) @ [frame]\<rparr>)
                          else chans w)\<rparr>))"
  using assms by (simp add: run_add_def Let_def set_hub_def try_send_open)

text \<open>
  Let the hub's \<open>Clients\<close> be non-nil and its \<open>LastFrame\<close> be non-nil
  (in particular: non-empty). When the coordinator processes the add of an open
  queue, it returns with the queue in the subscriber set and has made one
  non-blocking send of \<open>LastFrame\<close> to it: the frame is appended to the queue if
  the queue had room and dropped if it was full, and nothing else in the store
  changes. For the queue a session has just made with \<open>make(chan []byte, 20)\<close>
  this means that after \<open>ServeHTTP\<close>'s \<open>h.AddCh <- ch\<close> the queue holds
  exactly that frame, which is therefore the first payload the session receives.
\<close>

lemma run_add_primes:
  assumes "Clients (heap w h) = Some cs" and "LastFrame (heap w h) = Some frame"
  shows "(\<not> closed (chans w ch) \<longrightarrow>
           (\<exists>w'. run_add h ch w = Inr w'
              \<and> set (clients_of (heap w' h)) = insert ch (set cs)
              \<and> LastFrame (heap w' h) = Some frame
              \<and> chans w' = (if length (buf (chans w ch)) < cap (chans w ch)
                            then (chans w)(ch := (chans w ch)\<lparr>buf := buf (chans w ch) @ [frame]\<rparr>)
                            else chans w)))
       \<and> (\<not> run_exited w h \<longrightarrow>
           (\<exists>w'. ServeHTTP_subscribe h w = Inr (next_chan w, w')
              \<and> next_chan w \<in> set (clients_of (heap w' h))
              \<and> chans w' (next_chan w) = \<lparr>buf = [frame], cap = 20, closed = False\<rparr>))"
proof (intro conjI impI)
  assume o: "\<not> closed (chans w ch)"
  show "\<exists>w'. run_add h ch w = Inr w'
              \<and> set (clients_of (heap w' h)) = insert ch (set cs)
              \<and> LastFrame (heap w' h) = Some frame
              \<and> chans w' = (if length (buf (chans w ch)) < cap (chans w ch)
                            then (chans w)(ch := (chans w ch)\<lparr>buf := buf (chans w ch) @ [frame]\<rparr>)
                            else chans w)"
    unfolding run_add_open[OF assms o]
    using assms by (auto simp: emit_def set_hub_def clients_of_def)
next
  assume r: "\<not> run_exited w h"
  let ?ch = "next_chan w"
  let ?w1 = "w\<lparr>chans := (chans w)(?ch := make_chan 20), next_chan := Suc ?ch,
                 response := (response w)(?ch := []),
                 returned := (returned w)(?ch := False)\<rparr>"
  have a: "Clients (heap ?w1 h) = Some cs" "LastFrame (heap ?w1 h) = Some frame"
       "\<not> closed (chans ?w1 ?ch)"
    using assms by (simp_all add: make_chan_def)
  show "\<exists>w'. ServeHTTP_subscribe h w = Inr (?ch, w')
              \<and> ?ch \<in> set (clients_of (heap w' h))
              \<and> chans w' ?ch = \<lparr>buf = [frame], cap = 20, closed = False\<rparr>"
    using r run_add_open[OF a]
    by (simp add: ServeHTTP_subscribe_def send_AddCh_def Let_def emit_def set_hub_def
                  clients_of_def make_chan_def)
qed

text \<open>
  On the example whose \<open>LastFrame\<close> is \<open>AA BB\<close>: a new session's queue 0 holds
  that frame after subscribing, and a queue without room (5, of capacity 0) is
  added to the set with the frame dropped.
\<close>

lemma run_add_primes_example:
  "(case ServeHTTP_subscribe 0 primed_world of
      Inl p \<Rightarrow> False
    | Inr (ch, w') \<Rightarrow>
        ch = 0 \<and> Clients (heap w' 0) = Some [0] \<and> buf (chans w' 0) = [[0xAA, 0xBB]])
   \<and> (case run_add 0 5 primed_world of
      Inl p \<Rightarrow> False
    | Inr w' \<Rightarrow> Clients (heap w' 0) = Some [5] \<and> buf (chans w' 5) = [])"
  using run_add_primes[of primed_world 0 "[]" "[0xAA, 0xBB]" 0]
        run_add_primes[of primed_world 0 "[]" "[0xAA, 0xBB]" 5]
  by (auto simp: primed_world_hub primed_world_rest make_chan_def clients_of_def
        ServeHTTP_subscribe_def send_AddCh_def run_add_def Let_def set_hub_def emit_def try_send_def)

text \<open>
  \<^bold>\<open>C3.\<close> The coordinator does not always do this when it processes an add
  while the last frame is non-empty. The reader of hub 0 receives \<open>AA BB\<close>; a
  session subscribes (queue 0) and leaves again, and the coordinator's remove
  branch, finding no subscriber left, calls \<open>Close\<close>, which sets \<open>Clients\<close> to
  nil. The coordinator has not yet taken its \<open>Closed\<close> branch when it receives
  the queue of a second session, one that polled \<open>Closed\<close> before the hub was
  closed: the add branch writes to the nil map and panics. The queue is not
  inserted and gets no frame.
\<close>

theorem add_after_last_remove_panics:
  "(\<exists>w. exec 0 [Receive [0xAA, 0xBB], Broadcast, Subscribe, Unsubscribe 0] example_world = Inr w
       \<and> LastFrame (heap w 0) = Some [0xAA, 0xBB]
       \<and> Closed (heap w 0) \<and> Clients (heap w 0) = None \<and> \<not> run_exited w 0
       \<and> run_add 0 1 (w\<lparr>chans := (chans w)(1 := make_chan 20)\<rparr>) = Inl AssignmentToNilMap)
   \<and> exec 0 [Receive [0xAA, 0xBB], Broadcast, Subscribe, Unsubscribe 0, Subscribe] example_world
        = Inl AssignmentToNilMap"
  by (simp add: step_defs example_world_hub example_world_run example_world_readers
        example_world_next_chan example_world_chans emit_def Let_def make_chan_def)

lemma run_remove_eq:
  assumes "ch \<in> set (clients_of (heap w h)) \<longrightarrow> \<not> closed (chans w ch)"
  shows "run_remove h ch w =
     (let w1 = (if ch \<in> set (clients_of (heap w h))
                then set_hub h ((heap w h)\<lparr>Clients := Some (removeAll ch (clients_of (heap w h)))\<rparr>)
                       (w\<lparr>chans := (chans w)(ch := (chans w ch)\<lparr>closed := True\<rparr>)\<rparr>)
                else w);
          n = length (removeAll ch (clients_of (heap w h)));
          w2 = emit [LogPrintf (ClientLeft n)] w1
      in if n = 0 then Close h w2 else Inr w2)"
  using assms
  by (auto simp: run_remove_def Let_def close_chan_open set_hub_def clients_of_def emit_def)

text \<open>
  \<^bold>\<open>C6.\<close> When the coordinator processes the remove of \<open>ch\<close> (an open queue if
  it is still a member), it returns; \<open>ch\<close> is then no member, it has been closed
  exactly if it was a member, and no other queue was touched. If no subscriber
  is left after that, the coordinator has called \<open>Close\<close> on the hub with its
  empty set, and the hub is closed when the step ends; otherwise the hub's
  \<open>Closed\<close> is as before and the set is the old one without \<open>ch\<close>.
\<close>

theorem run_remove_closes_queue_and_idle_hub:
  assumes "ch \<in> set (clients_of (heap w h)) \<longrightarrow> \<not> closed (chans w ch)"
  shows "\<exists>w'. run_remove h ch w = Inr w'
     \<and> ch \<notin> set (clients_of (heap w' h))
     \<and> closed (chans w' ch) = (ch \<in> set (clients_of (heap w h)) \<or> closed (chans w ch))
     \<and> (\<forall>c. c \<noteq> ch \<longrightarrow> chans w' c = chans w c)
     \<and> (if removeAll ch (clients_of (heap w h)) = []
        then Closed (heap w' h)
           \<and> (\<exists>w2. clients_of (heap w2 h) = [] \<and> Closed (heap w2 h) = Closed (heap w h)
                   \<and> Close h w2 = Inr w')
        else Closed (heap w' h) = Closed (heap w h)
           \<and> clients_of (heap w' h) = removeAll ch (clients_of (heap w h)))"
proof -
  let ?w1 = "if ch \<in> set (clients_of (heap w h))
                then set_hub h ((heap w h)\<lparr>Clients := Some (removeAll ch (clients_of (heap w h)))\<rparr>)
                       (w\<lparr>chans := (chans w)(ch := (chans w ch)\<lparr>closed := True\<rparr>)\<rparr>)
                else w"
  let ?n = "length (removeAll ch (clients_of (heap w h)))"
  let ?w2 = "emit [LogPrintf (ClientLeft ?n)] ?w1"
  have eq: "run_remove h ch w = (if ?n = 0 then Close h ?w2 else Inr ?w2)"
    using run_remove_eq[OF assms] by (simp add: Let_def)
  have cl2: "clients_of (heap ?w2 h) = removeAll ch (clients_of (heap w h))"
    by (auto simp: emit_def set_hub_def clients_of_def)
  have cd2: "Closed (heap ?w2 h) = Closed (heap w h)"
    by (simp add: emit_def set_hub_def)
  have ch2: "closed (chans ?w2 ch) = (ch \<in> set (clients_of (heap w h)) \<or> closed (chans w ch))"
       "\<forall>c. c \<noteq> ch \<longrightarrow> chans ?w2 c = chans w c"
    by (simp_all add: emit_def set_hub_def)
  show ?thesis
  proof (cases "removeAll ch (clients_of (heap w h)) = []")
    case False
    then show ?thesis using eq cl2 cd2 ch2 by (intro exI[of _ ?w2]) simp
  next
    case True
    then have e: "clients_of (heap ?w2 h) = []" using cl2 by simp
    have "\<exists>w'. Close h ?w2 = Inr w' \<and> Closed (heap w' h) \<and> clients_of (heap w' h) = []
             \<and> chans w' = chans ?w2"
    proof (cases "Closed (heap ?w2 h)")
      case True
      then show ?thesis using e by (simp add: Close_closed)
    next
      case False
      show ?thesis
        unfolding Close_open[OF False, unfolded e, simplified]
        by (simp add: emit_def clients_of_def)
    qed
    then obtain w' where w': "Close h ?w2 = Inr w'" "Closed (heap w' h)"
        "clients_of (heap w' h) = []" "chans w' = chans ?w2" by blast
    have "run_remove h ch w = Inr w'" using eq True w'(1) by simp
    moreover have "\<exists>w2. clients_of (heap w2 h) = [] \<and> Closed (heap w2 h) = Closed (heap w h)
                   \<and> Close h w2 = Inr w'"
      using e cd2 w'(1) by blast
    ultimately show ?thesis using True w'(2,3,4) ch2 by (intro exI[of _ w']) simp
  qed
qed


text \<open>
  On the example with two subscribers: removing queue 0 closes it and leaves
  queue 1 subscribed and the hub open; removing queue 1 then closes it and the
  hub, socket and registry entry included.
\<close>

theorem run_remove_closes_queue_and_idle_hub_witness:
  "(case run_remove 0 0 two_subscribers of
      Inl p \<Rightarrow> False
    | Inr w' \<Rightarrow>
        Clients (heap w' 0) = Some [1] \<and> closed (chans w' 0) \<and> \<not> closed (chans w' 1)
        \<and> \<not> Closed (heap w' 0)
        \<and> (case run_remove 0 1 w' of
             Inl p \<Rightarrow> False
           | Inr w'' \<Rightarrow> Closed (heap w'' 0) \<and> closed (chans w'' 1) \<and> Clients (heap w'' 0) = None
                \<and> UdpConn (heap w'' 0) = Some SocketClosed \<and> Hubs w'' = []))"
  using run_remove_closes_queue_and_idle_hub[of 0 two_subscribers 0]
  by (simp add: two_subscribers_hub two_subscribers_chans two_subscribers_Hubs make_chan_def clients_of_def
        run_remove_def Let_def set_hub_def emit_def close_chan_def Close_def unregister_def)



section \<open>A send on a closed queue\<close>

text \<open>
  \<^bold>\<open>C2.\<close> The code does not keep "no send after close". Two sessions
  subscribe to hub 0 (queues 0 and 1); the reader receives a datagram and, under
  the mutex, takes the snapshot of both queues; before it broadcasts, the
  session of queue 0 leaves and the coordinator deletes and closes queue 0 (the
  hub stays open, queue 1 is still subscribed); the reader's
  \<open>broadcastToClients\<close> then sends on the closed queue 0, which panics.
\<close>

theorem send_after_close:
  "exec 0 [Subscribe, Subscribe, Receive [0xAA], Unsubscribe 0, Broadcast] example_world
     = Inl SendOnClosedChannel"
  by (simp add: step_defs example_world_hub example_world_run example_world_readers
        example_world_next_chan example_world_chans emit_def Let_def make_chan_def)

text \<open>
  \<^bold>\<open>C1.\<close> The reader does not give every queue of its snapshot a send
  attempt: \<open>readLoop\<close> releases the mutex between taking the snapshot and
  broadcasting, and a queue of the snapshot can be closed in between. Two
  sessions subscribe to hub 0 (queues 0 and 1); the reader receives a datagram
  and, under the mutex, takes the snapshot, which visits queue 1 first; before
  it broadcasts, the session of queue 1 leaves and the coordinator closes queue
  1. Queue 0 is open and empty, so an attempt on it would enqueue the payload;
  but the reader's \<open>broadcastToClients\<close> panics at queue 1, and queue 0 gets
  no attempt.
\<close>

theorem stale_snapshot_starves_open_queue:
  "\<exists>w. exec 0 [Subscribe, Subscribe, Receive [0xAA], Unsubscribe 1] example_world = Inr w
      \<and> readers w 0 = Holding [1, 0] [0xAA]
      \<and> closed (chans w 1)
      \<and> chans w 0 = make_chan 20
      \<and> map_sum id fst (try_send 0 [0xAA] (chans w)) = Inr Enqueued
      \<and> broadcastToClients [1, 0] [0xAA] (chans w) = Inl SendOnClosedChannel
      \<and> readLoop_broadcast 0 w = Inl SendOnClosedChannel"
  by (simp add: step_defs example_world_hub example_world_run example_world_readers
        example_world_next_chan example_world_chans emit_def Let_def make_chan_def)

section \<open>Migration\<close>

lemma prime_closed [simp]: "closed (prime fr ch st c) = closed (st c)"
  by (simp add: prime_def split: option.splits)

lemma prime_cap [simp]: "cap (prime fr ch st c) = cap (st c)"
  by (simp add: prime_def split: option.splits)

lemma prime_other [simp]: "c \<noteq> ch \<Longrightarrow> prime fr ch st c = st c"
  by (simp add: prime_def split: option.splits)

lemma prime_twice_buf:
  "buf (prime (Some f) ch (prime (Some f) ch st) ch)
     = buf (st ch) @ replicate (min 2 (cap (st ch) - length (buf (st ch)))) f"
proof -
  have "min 2 (cap (st ch) - length (buf (st ch))) = 0 \<or> min 2 (cap (st ch) - length (buf (st ch))) = 1
     \<or> min 2 (cap (st ch) - length (buf (st ch))) = 2" by linarith
  then show ?thesis
    by (auto simp: prime_def min_def numeral_2_eq_2 split: if_splits)
qed

lemma transfer_loop_Cons:
  assumes "newHub \<noteq> h" "Clients (heap w newHub) = Some ds" "\<not> run_exited w newHub"
      "\<not> closed (chans w ch)"
  shows "transfer_loop h newHub (ch # chs) w =
     transfer_loop h newHub chs
       (delete_client h ch
          (emit [LogPrintf (ClientJoined (length (List.insert ch ds)))]
             ((set_hub newHub ((heap w newHub)\<lparr>Clients := Some (List.insert ch ds)\<rparr>) w)
                \<lparr>chans := prime (LastFrame (heap w newHub)) ch
                            (prime (LastFrame (heap w newHub)) ch (chans w))\<rparr>)))"
proof (cases "LastFrame (heap w newHub)")
  case None
  then show ?thesis using assms
    by (simp add: send_AddCh_def run_add_def Let_def prime_def set_hub_def)
next
  case (Some f)
  have o1: "\<not> closed (prime (Some f) ch (chans w) ch)" using assms by simp
  have p1: "try_send ch f (chans w) =
      Inr (if length (buf (chans w ch)) < cap (chans w ch) then Enqueued else Dropped,
           prime (Some f) ch (chans w))"
    using try_send_open[of "chans w" ch f] assms(4) by (simp add: prime_def)
  have p2: "try_send ch f (prime (Some f) ch (chans w)) =
      Inr (if length (buf (prime (Some f) ch (chans w) ch)) < cap (chans w ch) then Enqueued else Dropped,
           prime (Some f) ch (prime (Some f) ch (chans w)))"
    using try_send_open[of "prime (Some f) ch (chans w)" ch f] o1 by (simp add: prime_def)
  show ?thesis using assms Some
    by (simp add: p1 p2 send_AddCh_def run_add_def Let_def set_hub_def)
qed


lemma prime_twice_cong:
  "st c = st' c \<Longrightarrow> prime fr c (prime fr c st) c = prime fr c (prime fr c st') c"
  by (auto simp: prime_def split: option.splits)

lemma transfer_loop_ok:
  assumes "newHub \<noteq> h" "Clients (heap w newHub) = Some ds" "\<not> run_exited w newHub"
      "distinct chs" "\<forall>ch \<in> set chs. \<not> closed (chans w ch)"
  shows "\<exists>w' ds'. transfer_loop h newHub chs w = Inr w'
      \<and> Clients (heap w' newHub) = Some ds' \<and> set ds' = set ds \<union> set chs
      \<and> Clients (heap w' h) = map_option (filter (\<lambda>c. c \<notin> set chs)) (Clients (heap w h))
      \<and> LastFrame (heap w' newHub) = LastFrame (heap w newHub)
      \<and> (\<forall>c. closed (chans w' c) = closed (chans w c))
      \<and> (\<forall>c. cap (chans w' c) = cap (chans w c))
      \<and> (\<forall>c. buf (chans w' c) =
              (if c \<in> set chs
               then buf (prime (LastFrame (heap w newHub)) c
                           (prime (LastFrame (heap w newHub)) c (chans w)) c)
               else buf (chans w c)))"
  using assms
proof (induction chs arbitrary: w ds)
  case Nil
  then show ?case by (simp add: option.map_ident)
next
  case (Cons ch chs)
  let ?fr = "LastFrame (heap w newHub)"
  let ?W = "delete_client h ch
          (emit [LogPrintf (ClientJoined (length (List.insert ch ds)))]
             ((set_hub newHub ((heap w newHub)\<lparr>Clients := Some (List.insert ch ds)\<rparr>) w)
                \<lparr>chans := prime ?fr ch (prime ?fr ch (chans w))\<rparr>))"
  have o: "\<not> closed (chans w ch)" using Cons.prems by simp
  have step: "transfer_loop h newHub (ch # chs) w = transfer_loop h newHub chs ?W"
    using transfer_loop_Cons[OF Cons.prems(1,2,3) o] .
  have Wn: "heap ?W newHub = (heap w newHub)\<lparr>Clients := Some (List.insert ch ds)\<rparr>"
    using Cons.prems(1)
    by (simp add: delete_client_def emit_def set_hub_def Let_def split: option.splits)
  have Wh: "Clients (heap ?W h) = map_option (removeAll ch) (Clients (heap w h))"
    using Cons.prems(1)
    by (simp add: delete_client_def emit_def set_hub_def Let_def split: option.splits)
  have Wr: "run_exited ?W = run_exited w"
    by (simp add: delete_client_def emit_def set_hub_def Let_def split: option.splits)
  have Wc: "chans ?W = prime ?fr ch (prime ?fr ch (chans w))"
    by (simp add: delete_client_def emit_def set_hub_def Let_def split: option.splits)
  have p2: "Clients (heap ?W newHub) = Some (List.insert ch ds)" by (simp add: Wn)
  have p3: "\<not> run_exited ?W newHub" using Cons.prems(3) Wr by simp
  have p4: "distinct chs" using Cons.prems(4) by simp
  have p5: "\<forall>c \<in> set chs. \<not> closed (chans ?W c)" using Cons.prems(5) Wc by simp
  from Cons.IH[OF Cons.prems(1) p2 p3 p4 p5] obtain w' ds' where
    r: "transfer_loop h newHub chs ?W = Inr w'"
       "Clients (heap w' newHub) = Some ds'" "set ds' = set (List.insert ch ds) \<union> set chs"
       "Clients (heap w' h) = map_option (filter (\<lambda>c. c \<notin> set chs)) (Clients (heap ?W h))"
       "LastFrame (heap w' newHub) = LastFrame (heap ?W newHub)"
       "\<forall>c. closed (chans w' c) = closed (chans ?W c)"
       "\<forall>c. cap (chans w' c) = cap (chans ?W c)"
       "\<forall>c. buf (chans w' c) =
              (if c \<in> set chs
               then buf (prime (LastFrame (heap ?W newHub)) c
                           (prime (LastFrame (heap ?W newHub)) c (chans ?W)) c)
               else buf (chans ?W c))"
    by blast
  have fr: "LastFrame (heap ?W newHub) = ?fr" by (simp add: Wn)
  have c1: "set ds' = set ds \<union> set (ch # chs)" using r(3) by auto
  have c2: "Clients (heap w' h) = map_option (filter (\<lambda>c. c \<notin> set (ch # chs))) (Clients (heap w h))"
  proof -
    have "filter (\<lambda>c. c \<notin> set chs) (removeAll ch cs) = filter (\<lambda>c. c \<notin> set (ch # chs)) cs" for cs
      by (induction cs) auto
    then show ?thesis unfolding r(4) Wh by (cases "Clients (heap w h)") auto
  qed
  have c3: "\<forall>c. closed (chans w' c) = closed (chans w c)" using r(6) Wc by simp
  have c4: "\<forall>c. cap (chans w' c) = cap (chans w c)" using r(7) Wc by simp
  have c5: "\<forall>c. buf (chans w' c) =
              (if c \<in> set (ch # chs)
               then buf (prime ?fr c (prime ?fr c (chans w)) c)
               else buf (chans w c))"
  proof
    fix c
    show "buf (chans w' c) =
              (if c \<in> set (ch # chs)
               then buf (prime ?fr c (prime ?fr c (chans w)) c)
               else buf (chans w c))"
    proof (cases "c = ch")
      case True
      then have "c \<notin> set chs" using Cons.prems(4) by simp
      then show ?thesis using r(8) True Wc by simp
    next
      case False
      then have e: "chans ?W c = chans w c" using Wc by simp
      have "prime ?fr c (prime ?fr c (chans ?W)) c = prime ?fr c (prime ?fr c (chans w)) c"
        using e by (rule prime_twice_cong)
      then show ?thesis using r(8) False e fr by simp
    qed
  qed
  have c6: "LastFrame (heap w' newHub) = ?fr" using r(5) fr by simp
  show ?case
    unfolding step
    by (rule exI[of _ w'], rule exI[of _ ds']) (intro conjI r(1) r(2) c1 c2 c3 c4 c5 c6)
qed

text \<open>
  Let the destination be another hub than the source, with a non-nil
  subscriber set and a running coordinator, and let the source's queues be open.
  Then \<open>TransferClientsTo\<close> returns; afterwards the source has no subscriber,
  the destination's set is its old one plus every queue of the source, no queue
  was closed (or opened), and queues outside the source set are as before.
  Every queue of the source set got the destination's last frame, when there
  is one, appended right after what it already held: once by the transfer and
  once more by the destination coordinator's own add, as far as the queue had
  room (so a queue that was not full holds the frame as its next payload).
\<close>

lemma TransferClientsTo_moves_all:
  assumes "newHub \<noteq> h" and "Clients (heap w newHub) = Some ds" and "\<not> run_exited w newHub"
      and "distinct (clients_of (heap w h))"
      and "\<forall>ch \<in> set (clients_of (heap w h)). \<not> closed (chans w ch)"
  shows "\<exists>w'. TransferClientsTo h newHub w = Inr w'
      \<and> clients_of (heap w' h) = []
      \<and> set (clients_of (heap w' newHub)) = set ds \<union> set (clients_of (heap w h))
      \<and> (\<forall>c. closed (chans w' c) = closed (chans w c))
      \<and> (\<forall>c. buf (chans w' c) =
              (case LastFrame (heap w newHub) of
                 Some frame \<Rightarrow>
                   if c \<in> set (clients_of (heap w h))
                   then buf (chans w c) @
                        replicate (min 2 (cap (chans w c) - length (buf (chans w c)))) frame
                   else buf (chans w c)
               | None \<Rightarrow> buf (chans w c)))"
proof -
  from transfer_loop_ok[OF assms] obtain w' ds' where
    r: "transfer_loop h newHub (clients_of (heap w h)) w = Inr w'"
       "Clients (heap w' newHub) = Some ds'" "set ds' = set ds \<union> set (clients_of (heap w h))"
       "Clients (heap w' h) = map_option (filter (\<lambda>c. c \<notin> set (clients_of (heap w h)))) (Clients (heap w h))"
       "\<forall>c. closed (chans w' c) = closed (chans w c)"
       "\<forall>c. buf (chans w' c) =
              (if c \<in> set (clients_of (heap w h))
               then buf (prime (LastFrame (heap w newHub)) c
                           (prime (LastFrame (heap w newHub)) c (chans w)) c)
               else buf (chans w c))"
    by blast
  have e: "clients_of (heap w' h) = []"
    unfolding clients_of_def r(4) by (cases "Clients (heap w h)") (auto simp: clients_of_def)
  have b: "\<forall>c. buf (chans w' c) =
              (case LastFrame (heap w newHub) of
                 Some frame \<Rightarrow>
                   if c \<in> set (clients_of (heap w h))
                   then buf (chans w c) @
                        replicate (min 2 (cap (chans w c) - length (buf (chans w c)))) frame
                   else buf (chans w c)
               | None \<Rightarrow> buf (chans w c))"
  proof (cases "LastFrame (heap w newHub)")
    case None
    then show ?thesis using r(6) by (simp add: prime_def)
  next
    case (Some f)
    then show ?thesis using r(6) by (simp add: prime_twice_buf)
  qed
  have m: "set (clients_of (heap w' newHub)) = set ds \<union> set (clients_of (heap w h))"
    using r(2,3) by (simp add: clients_of_def)
  show ?thesis
    unfolding TransferClientsTo_def
    by (rule exI[of _ w']) (intro conjI r(1) r(5) e b m)
qed


text \<open>
  On the example: both queues of hub 0 move to hub 1, hub 0 is left empty, and
  each queue holds hub 1's last frame \<open>F0\<close> twice.
\<close>

lemma TransferClientsTo_moves_all_example:
  "(case TransferClientsTo 0 1 migration_world of
      Inl p \<Rightarrow> False
    | Inr w' \<Rightarrow>
        Clients (heap w' 0) = Some [] \<and> Clients (heap w' 1) = Some [0, 1]
        \<and> chans w' 0 = \<lparr>buf = [[0xF0], [0xF0]], cap = 20, closed = False\<rparr>
        \<and> chans w' 1 = \<lparr>buf = [[0xF0], [0xF0]], cap = 20, closed = False\<rparr>)"
  using TransferClientsTo_moves_all[of 1 0 migration_world "[]"]
  by (simp add: migration_world_hubs TransferClientsTo_def clients_of_def send_AddCh_def run_add_def
        try_send_def delete_client_def set_hub_def emit_def Let_def make_chan_def)

text \<open>
  A hub cannot transfer to itself: with a subscriber to move, the call blocks
  on its own mutex.
\<close>

lemma TransferClientsTo_self:
  "clients_of (heap w h) \<noteq> [] \<Longrightarrow> TransferClientsTo h h w = Inl BlockedForever"
  by (cases "clients_of (heap w h)") (simp_all add: TransferClientsTo_def)

text \<open>
  \<^bold>\<open>C9.\<close> Not every call of \<open>TransferClientsTo\<close> does this. Hub 0 has the open
  queues 1 and 0, hub 1 has the last frame \<open>F0\<close>. If hub 1 has been closed and
  its coordinator has not yet taken its \<open>Closed\<close> branch, the transfer of hub 0's
  subscribers to hub 1 hands the first queue to that coordinator, whose add
  branch writes to the nil map and panics. If the coordinator of the closed hub
  has returned, the call blocks forever on \<open>newHub.AddCh <- ch\<close>, holding the
  source's mutex. And the transfer of hub 0's subscribers to hub 0 itself blocks
  forever on the mutex it holds. In no case is the source left empty or a queue
  registered with the destination.
\<close>

theorem TransferClientsTo_closed_destination:
  "(\<exists>w. exec 1 [CloseHub] migration_world = Inr w
       \<and> Clients (heap w 0) = Some [1, 0] \<and> \<not> closed (chans w 0) \<and> \<not> closed (chans w 1)
       \<and> Closed (heap w 1) \<and> \<not> run_exited w 1
       \<and> TransferClientsTo 0 1 w = Inl AssignmentToNilMap)
   \<and> (\<exists>w. exec 1 [CloseHub, CoordinatorClosed] migration_world = Inr w
       \<and> Clients (heap w 0) = Some [1, 0] \<and> \<not> closed (chans w 0) \<and> \<not> closed (chans w 1)
       \<and> Closed (heap w 1) \<and> run_exited w 1
       \<and> TransferClientsTo 0 1 w = Inl BlockedForever)
   \<and> TransferClientsTo 0 0 migration_world = Inl BlockedForever"
  by (simp add: step_defs migration_world_hubs TransferClientsTo_def delete_client_def
        emit_def Let_def make_chan_def)



section \<open>What a subscriber is given\<close>

subsection \<open>Effects of the single operations\<close>

lemma close_all_Inr:
  "close_all cs st = Inr st' \<Longrightarrow> buf (st' c) = buf (st c) \<and> cap (st' c) = cap (st c)"
proof (induction cs arbitrary: st)
  case Nil
  then show ?case by simp
next
  case (Cons a cs)
  then show ?case
    by (auto simp: close_chan_def Let_def split: if_splits sum.splits)
qed

lemma broadcast_Inr:
  "broadcastToClients cl d st = Inr (log, st') \<Longrightarrow> distinct cl \<Longrightarrow>
     log = map (\<lambda>c. (c, if length (buf (st c)) < cap (st c) then Enqueued else Dropped)) cl
     \<and> (\<forall>c. st' c = (if c \<in> set cl \<and> length (buf (st c)) < cap (st c)
                     then (st c)\<lparr>buf := buf (st c) @ [d]\<rparr> else st c))"
proof (induction cl arbitrary: st log st')
  case Nil
  then show ?case by simp
next
  case (Cons a cl)
  from Cons.prems(1) obtain at st1 log1 where
    t: "try_send a d st = Inr (at, st1)" and
    b: "broadcastToClients cl d st1 = Inr (log1, st')" and
    l: "log = (a, at) # log1"
    by (auto split: sum.splits prod.splits)
  from t have o: "\<not> closed (st a)" by (auto simp: try_send_def Let_def split: if_splits)
  from t o try_send_open[of st a d] have
    at: "at = (if length (buf (st a)) < cap (st a) then Enqueued else Dropped)" and
    st1: "st1 = (if length (buf (st a)) < cap (st a)
          then st(a := (st a)\<lparr>buf := buf (st a) @ [d]\<rparr>) else st)" by simp_all
  have d: "distinct cl" "a \<notin> set cl" using Cons.prems(2) by simp_all
  from Cons.IH[OF b d(1)] have
    ih1: "log1 = map (\<lambda>c. (c, if length (buf (st1 c)) < cap (st1 c) then Enqueued else Dropped)) cl" and
    ih2: "\<forall>c. st' c = (if c \<in> set cl \<and> length (buf (st1 c)) < cap (st1 c)
                     then (st1 c)\<lparr>buf := buf (st1 c) @ [d]\<rparr> else st1 c)" by simp_all
  have same: "\<forall>c \<in> set cl. st1 c = st c" using d(2) st1 by auto
  have "log1 = map (\<lambda>c. (c, if length (buf (st c)) < cap (st c) then Enqueued else Dropped)) cl"
    unfolding ih1 using same by (intro map_cong) auto
  moreover have "\<forall>c. st' c = (if c \<in> set (a # cl) \<and> length (buf (st c)) < cap (st c)
                     then (st c)\<lparr>buf := buf (st c) @ [d]\<rparr> else st c)"
    using ih2 same st1 d(2) by auto
  ultimately show ?case using l at by simp
qed

lemma received_append: "received (xs @ ys) = received xs @ received ys"
  by (induction xs rule: received.induct) auto

lemma readLoop_broadcast_Inr:
  assumes "readLoop_broadcast h w = Inr w'" "hub_wf h w"
  shows "readers w' h = Reading \<and> heap w' = heap w \<and> next_chan w' = next_chan w
       \<and> response w' = response w \<and> run_exited w' = run_exited w
       \<and> returned w' = returned w
       \<and> got q w' @ holding h q w' = (if drops h q w then got q w else got q w @ holding h q w)
       \<and> (\<forall>c. cap (chans w' c) = cap (chans w c))"
proof (cases "readers w h")
  case Reading
  then show ?thesis using assms by (simp add: readLoop_broadcast_def holding_def drops_def)
next
  case (Holding cl d)
  from assms(1) Holding obtain log st where
    b: "broadcastToClients cl d (chans w) = Inr (log, st)" and
    w': "w' = w\<lparr>chans := st, readers := (readers w)(h := Reading)\<rparr>"
    by (auto simp: readLoop_broadcast_def split: sum.splits prod.splits)
  have dc: "distinct cl" using assms(2) Holding by (simp add: hub_wf_def)
  note r = broadcast_Inr[OF b dc]
  have dr: "drops h q w = (q \<in> set cl \<and> \<not> length (buf (chans w q)) < cap (chans w q))"
    using Holding b r by (auto simp: drops_def)
  show ?thesis using r dr Holding
    by (auto simp: w' got_def holding_def)
qed

lemma Close_Inr:
  assumes "Close h w = Inr w'"
  shows "next_chan w' = next_chan w \<and> readers w' = readers w \<and> response w' = response w
     \<and> run_exited w' = run_exited w \<and> returned w' = returned w
     \<and> LastFrame (heap w' h) = LastFrame (heap w h)
     \<and> (\<forall>c. buf (chans w' c) = buf (chans w c))
     \<and> Closed (heap w' h)
     \<and> (if Closed (heap w h) then w' = w else Clients (heap w' h) = None)"
proof (cases "Closed (heap w h)")
  case True
  then show ?thesis using assms by (simp add: Close_def)
next
  case False
  from assms False obtain st where
    c: "close_all (clients_of (heap w h)) (chans w) = Inr st" and
    w': "w' = emit [LogPrintf UdpListenerClosed]
                   (w\<lparr>chans := st,
                      heap := (heap w)(h := (heap w h)\<lparr>Clients := None,
                                 UdpConn := map_option (\<lambda>_. SocketClosed) (UdpConn (heap w h)),
                                 Closed := True\<rparr>),
                      Hubs := unregister h (Hubs w)\<rparr>)"
    by (auto simp: Close_def Let_def split: sum.splits)
  show ?thesis using False close_all_Inr[OF c] by (simp add: w' emit_def)
qed

lemma run_closed_Inr:
  assumes "run_closed h w = Inr w'"
  shows "next_chan w' = next_chan w \<and> readers w' = readers w \<and> response w' = response w
     \<and> returned w' = returned w
     \<and> LastFrame (heap w' h) = LastFrame (heap w h)
     \<and> (\<forall>c. buf (chans w' c) = buf (chans w c))
     \<and> Closed (heap w' h) = Closed (heap w h)
     \<and> Clients (heap w' h) = None"
proof -
  from assms obtain st where
    c: "close_all (clients_of (heap w h)) (chans w) = Inr st" and
    w': "w' = set_hub h ((heap w h)\<lparr>Clients := None\<rparr>)
               (w\<lparr>chans := st, run_exited := (run_exited w)(h := True)\<rparr>)"
    by (auto simp: run_closed_def Let_def split: sum.splits)
  show ?thesis using close_all_Inr[OF c] by (simp add: w' set_hub_def)
qed

lemma run_add_Inr:
  assumes "run_add h ch w = Inr w'"
  shows "\<exists>cs. Clients (heap w h) = Some cs \<and> Clients (heap w' h) = Some (List.insert ch cs)
     \<and> Closed (heap w' h) = Closed (heap w h)
     \<and> LastFrame (heap w' h) = LastFrame (heap w h)
     \<and> next_chan w' = next_chan w \<and> readers w' = readers w \<and> response w' = response w
     \<and> returned w' = returned w
     \<and> (\<forall>c. c \<noteq> ch \<longrightarrow> chans w' c = chans w c)
     \<and> chans w' ch = prime (LastFrame (heap w h)) ch (chans w) ch"
proof -
  from assms obtain cs where cs: "Clients (heap w h) = Some cs"
    by (auto simp: run_add_def Let_def split: option.splits)
  show ?thesis
  proof (cases "LastFrame (heap w h)")
    case None
    then show ?thesis using assms cs
      by (auto simp: run_add_def Let_def set_hub_def emit_def prime_def)
  next
    case (Some f)
    from assms cs Some obtain a st where
      t: "try_send ch f (chans w) = Inr (a, st)" and
      w': "w' = emit [LogPrintf (ClientJoined (length (List.insert ch cs)))]
                 ((set_hub h ((heap w h)\<lparr>Clients := Some (List.insert ch cs)\<rparr>) w)\<lparr>chans := st\<rparr>)"
      by (auto simp: run_add_def Let_def set_hub_def split: sum.splits prod.splits)
    from t have o: "\<not> closed (chans w ch)" by (auto simp: try_send_def Let_def split: if_splits)
    from t o try_send_open[of "chans w" ch f] have st: "st = prime (Some f) ch (chans w)"
      by (simp add: prime_def)
    show ?thesis using cs Some by (simp add: w' st emit_def set_hub_def)
  qed
qed

lemma run_remove_Inr:
  assumes "run_remove h ch w = Inr w'" "Closed (heap w h) \<longrightarrow> Clients (heap w h) = None"
  shows "next_chan w' = next_chan w \<and> readers w' = readers w \<and> response w' = response w
     \<and> returned w' = returned w
     \<and> LastFrame (heap w' h) = LastFrame (heap w h)
     \<and> (\<forall>c. buf (chans w' c) = buf (chans w c))
     \<and> clients_of (heap w' h) = removeAll ch (clients_of (heap w h))
     \<and> Closed (heap w' h) = (Closed (heap w h) \<or> removeAll ch (clients_of (heap w h)) = [])
     \<and> (Closed (heap w' h) \<longrightarrow> Clients (heap w' h) = None)"
proof -
  let ?cs = "clients_of (heap w h)"
  define w1 where "w1 = (if ch \<in> set ?cs
                then set_hub h ((heap w h)\<lparr>Clients := Some (removeAll ch ?cs)\<rparr>)
                       (w\<lparr>chans := (chans w)(ch := (chans w ch)\<lparr>closed := True\<rparr>)\<rparr>)
                else w)"
  define w2 where "w2 = emit [LogPrintf (ClientLeft (length (removeAll ch ?cs)))] w1"
  have o: "ch \<in> set ?cs \<longrightarrow> \<not> closed (chans w ch)"
    using assms(1) by (auto simp: run_remove_def Let_def close_chan_def split: if_splits)
  have eq: "run_remove h ch w = (if length (removeAll ch ?cs) = 0 then Close h w2 else Inr w2)"
    using run_remove_eq[OF o] by (simp add: Let_def w1_def w2_def)
  have f2: "next_chan w2 = next_chan w" "readers w2 = readers w" "response w2 = response w"
     "returned w2 = returned w"
     "LastFrame (heap w2 h) = LastFrame (heap w h)" "\<forall>c. buf (chans w2 c) = buf (chans w c)"
     "Closed (heap w2 h) = Closed (heap w h)"
    by (auto simp: w2_def w1_def emit_def set_hub_def)
  have c2: "clients_of (heap w2 h) = removeAll ch ?cs"
    by (auto simp: w2_def w1_def emit_def set_hub_def clients_of_def)
  have n2: "Closed (heap w2 h) \<longrightarrow> Clients (heap w2 h) = None"
    using assms(2) by (auto simp: w2_def w1_def emit_def set_hub_def clients_of_def)
  show ?thesis
  proof (cases "removeAll ch ?cs = []")
    case True
    then have c: "Close h w2 = Inr w'" using eq assms(1) by simp
    note r = Close_Inr[OF c]
    have "clients_of (heap w' h) = []"
      using r c2 True by (auto simp: clients_of_def split: if_splits)
    moreover have "Clients (heap w' h) = None"
      using r n2 by (auto split: if_splits)
    ultimately show ?thesis using r f2 True by simp
  next
    case False
    then have "w' = w2" using eq assms(1) by simp
    moreover have "\<not> Closed (heap w h)"
      using False assms(2) by (auto simp: clients_of_def)
    ultimately show ?thesis using f2 c2 False by simp
  qed
qed

subsection \<open>Effects of the steps\<close>

lemma unless_blocked_Inr:
  "unless_blocked w r = Inr w' \<Longrightarrow> r = Inr w' \<or> (r = Inl BlockedForever \<and> w' = w)"
  by (auto simp: unless_blocked_def split: sum.splits fault.splits)

lemma step_Subscribe:
  assumes "step h Subscribe w = Inr w'"
  shows "(run_exited w h \<and> w' = w) \<or>
     (\<not> run_exited w h \<and>
      (\<exists>cs. Clients (heap w h) = Some cs
         \<and> Clients (heap w' h) = Some (List.insert (next_chan w) cs)
         \<and> Closed (heap w' h) = Closed (heap w h)
         \<and> LastFrame (heap w' h) = LastFrame (heap w h)
         \<and> next_chan w' = Suc (next_chan w) \<and> readers w' = readers w
         \<and> (\<forall>c. c \<noteq> next_chan w \<longrightarrow>
               chans w' c = chans w c \<and> response w' c = response w c
               \<and> returned w' c = returned w c)
         \<and> response w' (next_chan w) = []
         \<and> \<not> returned w' (next_chan w)
         \<and> \<not> closed (chans w' (next_chan w))
         \<and> buf (chans w' (next_chan w)) = priming h w))"
proof (cases "run_exited w h")
  case True
  then show ?thesis using assms
    by (simp add: step_def ServeHTTP_subscribe_def send_AddCh_def Let_def unless_blocked_def)
next
  case False
  let ?n = "next_chan w"
  let ?w0 = "w\<lparr>chans := (chans w)(?n := make_chan 20), next_chan := Suc ?n,
                 response := (response w)(?n := []),
                 returned := (returned w)(?n := False)\<rparr>"
  have s: "ServeHTTP_subscribe h w = (case run_add h ?n ?w0 of Inl p \<Rightarrow> Inl p | Inr w'' \<Rightarrow> Inr (?n, w''))"
    using False by (simp add: ServeHTTP_subscribe_def send_AddCh_def Let_def)
  have nb: "run_add h ?n ?w0 \<noteq> Inl BlockedForever"
    by (auto simp: run_add_def Let_def try_send_def split: option.splits if_splits)
  have "run_add h ?n ?w0 = Inr w'"
    using assms nb unfolding step_def s
    by (cases "run_add h ?n ?w0") (auto simp: unless_blocked_def split: fault.splits)
  from run_add_Inr[OF this] show ?thesis using False
    by (auto simp: prime_def priming_def make_chan_def split: option.splits)
qed

lemma step_Subscribe_other:
  assumes "step h Subscribe w = Inr w'" "q < next_chan w"
  shows "chans w' q = chans w q \<and> response w' q = response w q \<and> returned w' q = returned w q
     \<and> readers w' = readers w \<and> Closed (heap w' h) = Closed (heap w h)
     \<and> LastFrame (heap w' h) = LastFrame (heap w h)
     \<and> next_chan w \<le> next_chan w'
     \<and> set (clients_of (heap w h)) \<subseteq> set (clients_of (heap w' h))"
  using step_Subscribe[OF assms(1)] assms(2) by (auto simp: clients_of_def)

lemma step_Unsubscribe:
  assumes "step h (Unsubscribe ch) w = Inr w'"
  shows "w' = w \<or> run_remove h ch (w\<lparr>returned := (returned w)(ch := True)\<rparr>) = Inr w'"
  using assms
    unless_blocked_Inr[of w "send_RemoveCh h ch (w\<lparr>returned := (returned w)(ch := True)\<rparr>)" w']
  by (auto simp: step_def send_RemoveCh_def split: if_splits)

lemma step_Unsubscribe_Inr:
  assumes "step h (Unsubscribe ch) w = Inr w'" "Closed (heap w h) \<longrightarrow> Clients (heap w h) = None"
  shows "w' = w \<or>
     (next_chan w' = next_chan w \<and> readers w' = readers w \<and> response w' = response w
      \<and> returned w' = (returned w)(ch := True)
      \<and> LastFrame (heap w' h) = LastFrame (heap w h)
      \<and> (\<forall>c. buf (chans w' c) = buf (chans w c))
      \<and> clients_of (heap w' h) = removeAll ch (clients_of (heap w h))
      \<and> Closed (heap w' h) = (Closed (heap w h) \<or> removeAll ch (clients_of (heap w h)) = [])
      \<and> (Closed (heap w' h) \<longrightarrow> Clients (heap w' h) = None))"
proof -
  let ?w = "w\<lparr>returned := (returned w)(ch := True)\<rparr>"
  from step_Unsubscribe[OF assms(1)] show ?thesis
  proof
    assume "w' = w" then show ?thesis by simp
  next
    assume r: "run_remove h ch ?w = Inr w'"
    have c: "Closed (heap ?w h) \<longrightarrow> Clients (heap ?w h) = None" using assms(2) by simp
    from run_remove_Inr[OF r c] show ?thesis by simp
  qed
qed

lemma step_Receive:
  assumes "step h (Receive d) w = Inr w'"
  shows "\<exists>w1. readLoop_broadcast h w = Inr w1 \<and> w' = readLoop_locked h d w1"
  using assms by (auto simp: step_def split: sum.splits)

lemma readLoop_locked_obs:
  "heap (readLoop_locked h d w) h = (heap w h)\<lparr>LastFrame := Some d\<rparr>
   \<and> readers (readLoop_locked h d w) h = Holding (clients_of (heap w h)) d
   \<and> chans (readLoop_locked h d w) = chans w
   \<and> response (readLoop_locked h d w) = response w
   \<and> returned (readLoop_locked h d w) = returned w
   \<and> next_chan (readLoop_locked h d w) = next_chan w"
  by (simp add: readLoop_locked_def Let_def emit_def set_hub_def)

text \<open>
  A round of a session leaves the hub and the reader alone. It takes at most
  the oldest payload from the session's queue and, while the session goes on,
  has appended what it took to the response; a round that ends the session may
  have lost the payload it took.
\<close>

lemma ServeHTTP_iter_obs:
  assumes "ServeHTTP_iter h ch sc w = (c, w')"
  shows "heap w' = heap w \<and> readers w' = readers w \<and> next_chan w' = next_chan w
     \<and> returned w' = returned w \<and> run_exited w' = run_exited w
     \<and> (\<forall>x. closed (chans w' x) = closed (chans w x))
     \<and> (\<forall>x. x \<noteq> ch \<longrightarrow> chans w' x = chans w x \<and> response w' x = response w x)
     \<and> subseq (got ch w') (got ch w)
     \<and> (c = Continue \<longrightarrow> got ch w' = got ch w)"
proof (cases sc)
  case (FromQueue wo)
  show ?thesis
  proof (cases "buf (chans w ch)")
    case Nil
    then show ?thesis using assms FromQueue
      by (auto simp: ServeHTTP_iter_def split: if_splits)
  next
    case (Cons d rest)
    have s: "subseq (response w ch @ rest) (response w ch @ d # rest)"
      by (intro list_emb_append_mono) auto
    show ?thesis
    proof (cases wo)
      case Written
      then show ?thesis using assms FromQueue Cons
        by (auto simp: ServeHTTP_iter_def Let_def got_def split: if_splits)
    next
      case (WriteFailed b)
      then show ?thesis using assms FromQueue Cons s
        by (auto simp: ServeHTTP_iter_def Let_def got_def emit_def split: if_splits)
    next
      case WriteTimedOut
      then show ?thesis using assms FromQueue Cons s
        by (auto simp: ServeHTTP_iter_def Let_def got_def emit_def split: if_splits)
    next
      case WriteSawClosed
      then show ?thesis using assms FromQueue Cons s
        by (auto simp: ServeHTTP_iter_def Let_def got_def emit_def split: if_splits)
    qed
  qed
next
  case CtxDone
  then show ?thesis using assms by (auto simp: ServeHTTP_iter_def emit_def got_def)
next
  case SawClosed
  then show ?thesis using assms
    by (auto simp: ServeHTTP_iter_def emit_def got_def split: if_splits)
next
  case IdleTimeout
  then show ?thesis using assms by (auto simp: ServeHTTP_iter_def emit_def got_def)
qed

lemma step_Session:
  assumes "step h (Session ch sc) w = Inr w'"
  shows "heap w' = heap w \<and> readers w' = readers w \<and> next_chan w' = next_chan w
     \<and> (\<forall>x. closed (chans w' x) = closed (chans w x))
     \<and> (returned w q \<longrightarrow> returned w' q)
     \<and> subseq (got q w') (got q w)
     \<and> (\<not> returned w' q \<longrightarrow> got q w' = got q w)"
proof (cases "returned w ch")
  case True
  then have "w' = w" using assms by (simp add: step_def)
  then show ?thesis by simp
next
  case False
  obtain c w1 where i: "ServeHTTP_iter h ch sc w = (c, w1)" by (cases "ServeHTTP_iter h ch sc w")
  note o = ServeHTTP_iter_obs[OF i]
  have w': "w' = (if c = Return then w1\<lparr>returned := (returned w1)(ch := True)\<rparr> else w1)"
    using assms False i by (cases c) (simp_all add: step_def session_step_def)
  have g: "got q w' = got q w1" by (simp add: w' got_def)
  have r: "returned w' = (if c = Return then (returned w)(ch := True) else returned w)"
    using o by (simp add: w')
  have gq: "q \<noteq> ch \<Longrightarrow> got q w1 = got q w" using o by (simp add: got_def)
  have f: "heap w' = heap w" "readers w' = readers w" "next_chan w' = next_chan w"
      "\<forall>x. closed (chans w' x) = closed (chans w x)"
    using o by (simp_all add: w')
  have m: "returned w q \<longrightarrow> returned w' q" by (simp add: r)
  have s: "subseq (got q w') (got q w)"
    using o gq unfolding g by (cases "q = ch") simp_all
  have e: "\<not> returned w' q \<longrightarrow> got q w' = got q w"
  proof (cases "q = ch")
    case True
    show ?thesis
    proof (cases c)
      case Return
      then show ?thesis using True by (simp add: r)
    next
      case Continue
      have "got ch w' = got ch w1" using g True by simp
      then show ?thesis using o Continue True by simp
    qed
  next
    case False
    then show ?thesis using gq g by simp
  qed
  show ?thesis using f m s e by simp
qed

lemma step_Unflushable:
  assumes "step h (Unflushable ch) w = Inr w'"
  shows "heap w' = heap w \<and> readers w' = readers w \<and> next_chan w' = next_chan w
     \<and> chans w' = chans w \<and> response w' = response w
     \<and> (returned w q \<longrightarrow> returned w' q)"
  using assms
  by (auto simp: step_def session_step_def ServeHTTP_flusher_def emit_def split: if_splits)

lemma step_CoordinatorClosed:
  assumes "step h CoordinatorClosed w = Inr w'"
  shows "w' = w \<or> run_closed h w = Inr w'"
  using assms by (auto simp: step_def split: if_splits)

lemma clients_of_simps:
  "Clients hub = Some cs \<Longrightarrow> clients_of hub = cs"
  "Clients hub = None \<Longrightarrow> clients_of hub = []"
  by (simp_all add: clients_of_def)

lemma step_wf:
  assumes "step h e w = Inr w'" "hub_wf h w"
  shows "hub_wf h w'"
proof (cases e)
  case Subscribe
  show ?thesis
  proof (cases "run_exited w h")
    case True
    with step_Subscribe[OF assms(1)[unfolded Subscribe]] show ?thesis using assms(2) by auto
  next
    case False
    with step_Subscribe[OF assms(1)[unfolded Subscribe]]
    obtain cs where r: "Clients (heap w h) = Some cs"
         "Clients (heap w' h) = Some (List.insert (next_chan w) cs)"
         "Closed (heap w' h) = Closed (heap w h)"
         "next_chan w' = Suc (next_chan w)" "readers w' = readers w" by blast
    show ?thesis using assms(2) r
      by (auto simp: hub_wf_def clients_of_simps less_Suc_eq split: reader.splits)
  qed
next
  case (Unsubscribe ch)
  have c: "Closed (heap w h) \<longrightarrow> Clients (heap w h) = None" using assms(2) by (simp add: hub_wf_def)
  from step_Unsubscribe_Inr[OF assms(1)[unfolded Unsubscribe] c] assms(2) show ?thesis
    by (auto simp: hub_wf_def distinct_removeAll split: reader.splits)
next
  case (Receive d)
  from step_Receive[OF assms(1)[unfolded Receive]] obtain w1 where
    b: "readLoop_broadcast h w = Inr w1" and w': "w' = readLoop_locked h d w1" by blast
  from readLoop_broadcast_Inr[OF b assms(2), of 0] have
    f: "heap w1 = heap w" "next_chan w1 = next_chan w" by simp_all
  show ?thesis using assms(2) readLoop_locked_obs[of h d w1] f
    by (auto simp: hub_wf_def w' clients_of_def split: reader.splits)
next
  case Broadcast
  then have b: "readLoop_broadcast h w = Inr w'" using assms(1) by (simp add: step_def)
  from readLoop_broadcast_Inr[OF b assms(2), of 0] show ?thesis using assms(2)
    by (auto simp: hub_wf_def split: reader.splits)
next
  case (Session ch sc)
  from step_Session[OF assms(1)[unfolded Session], of 0] show ?thesis using assms(2)
    by (auto simp: hub_wf_def split: reader.splits)
next
  case (Unflushable ch)
  from step_Unflushable[OF assms(1)[unfolded Unflushable], of 0] show ?thesis using assms(2)
    by (auto simp: hub_wf_def split: reader.splits)
next
  case CloseHub
  then have c: "Close h w = Inr w'" using assms(1) by (simp add: step_def)
  from Close_Inr[OF c] show ?thesis using assms(2)
    by (auto simp: hub_wf_def clients_of_simps split: reader.splits if_splits)
next
  case CoordinatorClosed
  from step_CoordinatorClosed[OF assms(1)[unfolded CoordinatorClosed]] show ?thesis
  proof
    assume "w' = w" then show ?thesis using assms(2) by simp
  next
    assume "run_closed h w = Inr w'"
    from run_closed_Inr[OF this] show ?thesis using assms(2)
      by (auto simp: hub_wf_def clients_of_simps split: reader.splits)
  qed
qed

lemma step_CoordinatorClosed':
  assumes "step h CoordinatorClosed w = Inr w'"
  shows "w' = w \<or> (Closed (heap w h) \<and> run_closed h w = Inr w')"
  using assms by (auto simp: step_def split: if_splits)

text \<open>
  Queue identities are never given back, a session that has returned stays
  returned, and a closed hub stays closed.
\<close>

lemma step_mono:
  assumes "step h e w = Inr w'" "hub_wf h w"
  shows "next_chan w \<le> next_chan w'
     \<and> (q < next_chan w \<longrightarrow> returned w q \<longrightarrow> returned w' q)
     \<and> (Closed (heap w h) \<longrightarrow> Closed (heap w' h))"
proof (cases e)
  case Subscribe
  from step_Subscribe[OF assms(1)[unfolded Subscribe]] show ?thesis by auto
next
  case (Unsubscribe ch)
  have c: "Closed (heap w h) \<longrightarrow> Clients (heap w h) = None" using assms(2) by (simp add: hub_wf_def)
  from step_Unsubscribe_Inr[OF assms(1)[unfolded Unsubscribe] c] show ?thesis by auto
next
  case (Receive d)
  from step_Receive[OF assms(1)[unfolded Receive]] obtain w1 where
    b: "readLoop_broadcast h w = Inr w1" and w': "w' = readLoop_locked h d w1" by blast
  from readLoop_broadcast_Inr[OF b assms(2), of 0] readLoop_locked_obs[of h d w1]
  show ?thesis by (simp add: w')
next
  case Broadcast
  then have b: "readLoop_broadcast h w = Inr w'" using assms(1) by (simp add: step_def)
  from readLoop_broadcast_Inr[OF b assms(2), of 0] show ?thesis by simp
next
  case (Session ch sc)
  from step_Session[OF assms(1)[unfolded Session], of q] show ?thesis by simp
next
  case (Unflushable ch)
  from step_Unflushable[OF assms(1)[unfolded Unflushable], of q] show ?thesis by simp
next
  case CloseHub
  then have c: "Close h w = Inr w'" using assms(1) by (simp add: step_def)
  from Close_Inr[OF c] show ?thesis by simp
next
  case CoordinatorClosed
  from step_CoordinatorClosed[OF assms(1)[unfolded CoordinatorClosed]] show ?thesis
    using run_closed_Inr[of h w w'] by auto
qed

lemma step_next_chan:
  assumes "step h e w = Inr w'" "hub_wf h w"
  shows "next_chan w \<le> next_chan w'"
  using step_mono[OF assms, of 0] by simp

text \<open>
  What a step other than a session's round does to the payloads of \<open>q\<close>:
  only the reader adds to them, and only an overflow takes one away.
\<close>

lemma step_full:
  assumes "step h e w = Inr w'" "hub_wf h w" "q < next_chan w"
      "\<forall>ch sc. e \<noteq> Session ch sc"
  shows "got q w' @ holding h q w' =
      (case e of
         Receive d \<Rightarrow> (if drops h q w then got q w else got q w @ holding h q w)
                        @ (if q \<in> set (clients_of (heap w h)) then [d] else [])
       | Broadcast \<Rightarrow> (if drops h q w then got q w else got q w @ holding h q w)
       | _ \<Rightarrow> got q w @ holding h q w)"
proof (cases e)
  case Subscribe
  from step_Subscribe_other[OF assms(1)[unfolded Subscribe] assms(3)] show ?thesis
    by (simp add: Subscribe got_def holding_def)
next
  case (Unsubscribe ch)
  have c: "Closed (heap w h) \<longrightarrow> Clients (heap w h) = None" using assms(2) by (simp add: hub_wf_def)
  from step_Unsubscribe_Inr[OF assms(1)[unfolded Unsubscribe] c] show ?thesis
    by (auto simp: Unsubscribe got_def holding_def)
next
  case (Receive d)
  from step_Receive[OF assms(1)[unfolded Receive]] obtain w1 where
    b: "readLoop_broadcast h w = Inr w1" and w': "w' = readLoop_locked h d w1" by blast
  note r = readLoop_broadcast_Inr[OF b assms(2), of q]
  have h1: "holding h q w1 = []" using r by (simp add: holding_def)
  have g1: "got q w1 = (if drops h q w then got q w else got q w @ holding h q w)"
    using r h1 by simp
  have g': "got q w' = got q w1" using readLoop_locked_obs[of h d w1] by (simp add: w' got_def)
  have h': "holding h q w' = (if q \<in> set (clients_of (heap w h)) then [d] else [])"
    using readLoop_locked_obs[of h d w1] r by (simp add: w' holding_def)
  show ?thesis unfolding Receive g' h' g1 by simp
next
  case Broadcast
  then have b: "readLoop_broadcast h w = Inr w'" using assms(1) by (simp add: step_def)
  from readLoop_broadcast_Inr[OF b assms(2), of q] show ?thesis by (simp add: Broadcast)
next
  case (Session ch sc)
  then show ?thesis using assms(4) by simp
next
  case (Unflushable ch)
  from step_Unflushable[OF assms(1)[unfolded Unflushable], of q] show ?thesis
    by (simp add: Unflushable got_def holding_def)
next
  case CloseHub
  then have c: "Close h w = Inr w'" using assms(1) by (simp add: step_def)
  from Close_Inr[OF c] show ?thesis by (simp add: CloseHub got_def holding_def)
next
  case CoordinatorClosed
  from step_CoordinatorClosed[OF assms(1)[unfolded CoordinatorClosed]] show ?thesis
  proof
    assume "w' = w" then show ?thesis by (simp add: CoordinatorClosed)
  next
    assume "run_closed h w = Inr w'"
    from run_closed_Inr[OF this] show ?thesis
      by (simp add: CoordinatorClosed got_def holding_def)
  qed
qed

lemma step_Session_full:
  assumes "step h (Session ch sc) w = Inr w'"
  shows "subseq (got q w' @ holding h q w') (got q w @ holding h q w)
     \<and> (\<not> returned w' q \<longrightarrow> got q w' @ holding h q w' = got q w @ holding h q w)"
proof -
  note s = step_Session[OF assms, of q]
  have "holding h q w' = holding h q w" using s by (simp add: holding_def)
  then show ?thesis using s by (auto intro: list_emb_append_mono)
qed

text \<open>
  A subscriber stays in the set as long as its session has not returned and
  the hub is open.
\<close>

lemma step_member:
  assumes "step h e w = Inr w'" "hub_wf h w" "q \<in> set (clients_of (heap w h))"
      "\<not> returned w' q" "\<not> Closed (heap w' h)"
  shows "q \<in> set (clients_of (heap w' h))"
proof (cases e)
  case Subscribe
  have "q < next_chan w" using assms(2,3) by (simp add: hub_wf_def)
  from step_Subscribe_other[OF assms(1)[unfolded Subscribe] this] assms(3) show ?thesis
    by auto
next
  case (Unsubscribe ch)
  have c: "Closed (heap w h) \<longrightarrow> Clients (heap w h) = None" using assms(2) by (simp add: hub_wf_def)
  have m: "q \<noteq> ch \<Longrightarrow> q \<in> set (removeAll ch (clients_of (heap w h)))"
    using assms(3) by simp
  from step_Unsubscribe_Inr[OF assms(1)[unfolded Unsubscribe] c] show ?thesis
  proof
    assume "w' = w" then show ?thesis using assms(3) by simp
  next
    assume a: "next_chan w' = next_chan w \<and> readers w' = readers w \<and> response w' = response w
      \<and> returned w' = (returned w)(ch := True)
      \<and> LastFrame (heap w' h) = LastFrame (heap w h)
      \<and> (\<forall>c. buf (chans w' c) = buf (chans w c))
      \<and> clients_of (heap w' h) = removeAll ch (clients_of (heap w h))
      \<and> Closed (heap w' h) = (Closed (heap w h) \<or> removeAll ch (clients_of (heap w h)) = [])
      \<and> (Closed (heap w' h) \<longrightarrow> Clients (heap w' h) = None)"
    then have "q \<noteq> ch" using assms(4) by auto
    from m[OF this] a show ?thesis by simp
  qed
next
  case (Receive d)
  from step_Receive[OF assms(1)[unfolded Receive]] obtain w1 where
    b: "readLoop_broadcast h w = Inr w1" and w': "w' = readLoop_locked h d w1" by blast
  from readLoop_broadcast_Inr[OF b assms(2), of q] readLoop_locked_obs[of h d w1] assms(3)
  show ?thesis by (simp add: w' clients_of_def)
next
  case Broadcast
  then have b: "readLoop_broadcast h w = Inr w'" using assms(1) by (simp add: step_def)
  from readLoop_broadcast_Inr[OF b assms(2), of q] assms(3) show ?thesis by simp
next
  case (Session ch sc)
  from step_Session[OF assms(1)[unfolded Session], of q] assms(3) show ?thesis by simp
next
  case (Unflushable ch)
  from step_Unflushable[OF assms(1)[unfolded Unflushable], of q] assms(3) show ?thesis by simp
next
  case CloseHub
  then have c: "Close h w = Inr w'" using assms(1) by (simp add: step_def)
  from Close_Inr[OF c] assms(5) show ?thesis by simp
next
  case CoordinatorClosed
  have "\<not> Closed (heap w h)" using assms(2,3) by (auto simp: hub_wf_def clients_of_def)
  with step_CoordinatorClosed'[OF assms(1)[unfolded CoordinatorClosed]] assms(3)
  show ?thesis by auto
qed

lemma step_LastFrame:
  assumes "step h e w = Inr w'" "hub_wf h w"
  shows "LastFrame (heap w' h) = (case e of Receive d \<Rightarrow> Some d | _ \<Rightarrow> LastFrame (heap w h))"
proof (cases e)
  case Subscribe
  from step_Subscribe[OF assms(1)[unfolded Subscribe]] show ?thesis by (auto simp: Subscribe)
next
  case (Unsubscribe ch)
  have c: "Closed (heap w h) \<longrightarrow> Clients (heap w h) = None" using assms(2) by (simp add: hub_wf_def)
  from step_Unsubscribe_Inr[OF assms(1)[unfolded Unsubscribe] c] show ?thesis
    by (auto simp: Unsubscribe)
next
  case (Receive d)
  from step_Receive[OF assms(1)[unfolded Receive]] obtain w1 where
    b: "readLoop_broadcast h w = Inr w1" and w': "w' = readLoop_locked h d w1" by blast
  from readLoop_locked_obs[of h d w1] show ?thesis by (simp add: w' Receive)
next
  case Broadcast
  then have b: "readLoop_broadcast h w = Inr w'" using assms(1) by (simp add: step_def)
  from readLoop_broadcast_Inr[OF b assms(2), of 0] show ?thesis by (simp add: Broadcast)
next
  case (Session ch sc)
  from step_Session[OF assms(1)[unfolded Session], of 0] show ?thesis by (simp add: Session)
next
  case (Unflushable ch)
  from step_Unflushable[OF assms(1)[unfolded Unflushable], of 0] show ?thesis
    by (simp add: Unflushable)
next
  case CloseHub
  then have c: "Close h w = Inr w'" using assms(1) by (simp add: step_def)
  from Close_Inr[OF c] show ?thesis by (simp add: CloseHub)
next
  case CoordinatorClosed
  from step_CoordinatorClosed[OF assms(1)[unfolded CoordinatorClosed]] show ?thesis
    using run_closed_Inr[of h w w'] by (auto simp: CoordinatorClosed)
qed

subsection \<open>Runs\<close>

lemma exec_wf:
  "exec h es w = Inr w' \<Longrightarrow> hub_wf h w \<Longrightarrow> hub_wf h w' \<and> next_chan w \<le> next_chan w'"
proof (induction es arbitrary: w)
  case Nil
  then show ?case by simp
next
  case (Cons e es)
  from Cons.prems(1) obtain w1 where s: "step h e w = Inr w1" and r: "exec h es w1 = Inr w'"
    by (auto split: sum.splits)
  from Cons.IH[OF r step_wf[OF s Cons.prems(2)]] step_next_chan[OF s Cons.prems(2)]
  show ?case by simp
qed

lemma exec_mono:
  "exec h es w = Inr w' \<Longrightarrow> hub_wf h w \<Longrightarrow> q < next_chan w \<Longrightarrow>
     (returned w q \<longrightarrow> returned w' q) \<and> (Closed (heap w h) \<longrightarrow> Closed (heap w' h))"
proof (induction es arbitrary: w)
  case Nil
  then show ?case by simp
next
  case (Cons e es)
  from Cons.prems(1) obtain w1 where s: "step h e w = Inr w1" and r: "exec h es w1 = Inr w'"
    by (auto split: sum.splits)
  note m = step_mono[OF s Cons.prems(2), of q]
  have q1: "q < next_chan w1" using m Cons.prems(3) by simp
  from Cons.IH[OF r step_wf[OF s Cons.prems(2)] q1] m Cons.prems(3) show ?case by simp
qed

lemma exec_LastFrame:
  "exec h es w = Inr w' \<Longrightarrow> hub_wf h w \<Longrightarrow>
     LastFrame (heap w' h) =
       (if received es = [] then LastFrame (heap w h) else Some (last (received es)))"
proof (induction es arbitrary: w)
  case Nil
  then show ?case by simp
next
  case (Cons e es)
  from Cons.prems(1) obtain w1 where s: "step h e w = Inr w1" and r: "exec h es w1 = Inr w'"
    by (auto split: sum.splits)
  note ih = Cons.IH[OF r step_wf[OF s Cons.prems(2)]]
  note lf = step_LastFrame[OF s Cons.prems(2)]
  show ?case using ih lf by (cases e) auto
qed

lemma exec_subseq:
  "exec h es w = Inr w' \<Longrightarrow> hub_wf h w \<Longrightarrow> q < next_chan w \<Longrightarrow>
     subseq (got q w @ holding h q w) X \<Longrightarrow>
     subseq (got q w' @ holding h q w') (X @ received es)"
proof (induction es arbitrary: w X)
  case Nil
  then show ?case by simp
next
  case (Cons e es)
  from Cons.prems(1) obtain w1 where s: "step h e w = Inr w1" and r: "exec h es w1 = Inr w'"
    by (auto split: sum.splits)
  have wf1: "hub_wf h w1" by (rule step_wf[OF s Cons.prems(2)])
  have q1: "q < next_chan w1" using step_next_chan[OF s Cons.prems(2)] Cons.prems(3) by simp
  have g: "subseq (got q w) X"
    using Cons.prems(4) by (meson subseq_order.trans prefixI prefix_imp_subseq)
  have k: "subseq (if drops h q w then got q w else got q w @ holding h q w) X"
    using g Cons.prems(4) by simp
  show ?case
  proof (cases "\<exists>ch sc. e = Session ch sc")
    case True
    then obtain ch sc where e: "e = Session ch sc" by blast
    from step_Session_full[OF s[unfolded e], of q] Cons.prems(4)
    have "subseq (got q w1 @ holding h q w1) X" by (meson subseq_order.trans)
    from Cons.IH[OF r wf1 q1 this] show ?thesis by (simp add: e)
  next
    case False
    then have ns: "\<forall>ch sc. e \<noteq> Session ch sc" by simp
    note f = step_full[OF s Cons.prems(2,3) ns]
    show ?thesis
    proof (cases e)
      case (Receive d)
      have "subseq (got q w1 @ holding h q w1) (X @ [d])"
        unfolding f Receive event.case
        using k by (auto intro: list_emb_prefix)
      from Cons.IH[OF r wf1 q1 this] show ?thesis by (simp add: Receive)
    next
      case Subscribe
      then have "subseq (got q w1 @ holding h q w1) X" using f Cons.prems(4) by simp
      from Cons.IH[OF r wf1 q1 this] show ?thesis by (simp add: Subscribe)
    next
      case (Unsubscribe ch)
      then have "subseq (got q w1 @ holding h q w1) X" using f Cons.prems(4) by simp
      from Cons.IH[OF r wf1 q1 this] show ?thesis by (simp add: Unsubscribe)
    next
      case Broadcast
      then have "subseq (got q w1 @ holding h q w1) X" using f k by simp
      from Cons.IH[OF r wf1 q1 this] show ?thesis by (simp add: Broadcast)
    next
      case (Session ch sc)
      then show ?thesis using ns by simp
    next
      case (Unflushable ch)
      then have "subseq (got q w1 @ holding h q w1) X" using f Cons.prems(4) by simp
      from Cons.IH[OF r wf1 q1 this] show ?thesis by (simp add: Unflushable)
    next
      case CloseHub
      then have "subseq (got q w1 @ holding h q w1) X" using f Cons.prems(4) by simp
      from Cons.IH[OF r wf1 q1 this] show ?thesis by (simp add: CloseHub)
    next
      case CoordinatorClosed
      then have "subseq (got q w1 @ holding h q w1) X" using f Cons.prems(4) by simp
      from Cons.IH[OF r wf1 q1 this] show ?thesis by (simp add: CoordinatorClosed)
    qed
  qed
qed

lemma exec_exact:
  "exec h es w = Inr w' \<Longrightarrow> hub_wf h w \<Longrightarrow> q < next_chan w \<Longrightarrow>
     q \<in> set (clients_of (heap w h)) \<Longrightarrow> \<not> overflows h q es w \<Longrightarrow>
     \<not> returned w' q \<Longrightarrow> \<not> Closed (heap w' h) \<Longrightarrow>
     got q w' @ holding h q w' = got q w @ holding h q w @ received es
     \<and> q \<in> set (clients_of (heap w' h))"
proof (induction es arbitrary: w)
  case Nil
  then show ?case by simp
next
  case (Cons e es)
  from Cons.prems(1) obtain w1 where s: "step h e w = Inr w1" and r: "exec h es w1 = Inr w'"
    by (auto split: sum.splits)
  have wf1: "hub_wf h w1" by (rule step_wf[OF s Cons.prems(2)])
  have q1: "q < next_chan w1" using step_next_chan[OF s Cons.prems(2)] Cons.prems(3) by simp
  have n1: "\<not> returned w1 q" "\<not> Closed (heap w1 h)"
    using exec_mono[OF r wf1 q1] Cons.prems(6,7) by auto
  have m1: "q \<in> set (clients_of (heap w1 h))"
    by (rule step_member[OF s Cons.prems(2,4) n1])
  have o1: "\<not> overflows h q es w1" using Cons.prems(5) s by simp
  note ih = Cons.IH[OF r wf1 q1 m1 o1 Cons.prems(6,7)]
  have nd: "(case e of Receive d \<Rightarrow> drops h q w | Broadcast \<Rightarrow> drops h q w | _ \<Rightarrow> False) = False"
    using Cons.prems(5) by simp
  show ?case
  proof (cases "\<exists>ch sc. e = Session ch sc")
    case True
    then obtain ch sc where e: "e = Session ch sc" by blast
    from step_Session_full[OF s[unfolded e], of q] n1(1)
    have "got q w1 @ holding h q w1 = got q w @ holding h q w" by simp
    then show ?thesis using ih by (simp add: e)
  next
    case False
    then have ns: "\<forall>ch sc. e \<noteq> Session ch sc" by simp
    note f = step_full[OF s Cons.prems(2,3) ns]
    show ?thesis
    proof (cases e)
      case (Receive d)
      then show ?thesis using ih f nd Cons.prems(4) by simp
    next
      case Broadcast
      then show ?thesis using ih f nd by simp
    next
      case Subscribe
      then show ?thesis using ih f by simp
    next
      case (Unsubscribe ch)
      then show ?thesis using ih f by simp
    next
      case (Session ch sc)
      then show ?thesis using ns by simp
    next
      case (Unflushable ch)
      then show ?thesis using ih f by simp
    next
      case CloseHub
      then show ?thesis using ih f by simp
    next
      case CoordinatorClosed
      then show ?thesis using ih f by simp
    qed
  qed
qed

text \<open>
  A session that has not returned and whose writes succeed empties its queue
  into its response, in queue order.
\<close>

lemma exec_drain:
  "\<not> returned w q \<Longrightarrow> buf (chans w q) = bs \<Longrightarrow>
     \<exists>w'. exec h (replicate (length bs) (Session q (FromQueue Written))) w = Inr w'
        \<and> response w' q = response w q @ bs \<and> buf (chans w' q) = []
        \<and> readers w' = readers w \<and> heap w' = heap w \<and> \<not> returned w' q"
proof (induction bs arbitrary: w)
  case Nil
  then show ?case by simp
next
  case (Cons d rest)
  let ?w1 = "w\<lparr>chans := (chans w)(q := (chans w q)\<lparr>buf := rest\<rparr>),
               response := (response w)(q := response w q @ [d])\<rparr>"
  have s: "step h (Session q (FromQueue Written)) w = Inr ?w1"
    using Cons.prems by (simp add: step_def session_step_def ServeHTTP_iter_def Let_def)
  have "\<not> returned ?w1 q" "buf (chans ?w1 q) = rest" using Cons.prems by simp_all
  from Cons.IH[OF this] obtain w' where
    "exec h (replicate (length rest) (Session q (FromQueue Written))) ?w1 = Inr w'"
    "response w' q = response ?w1 q @ rest" "buf (chans w' q) = []"
    "readers w' = readers ?w1" "heap w' = heap ?w1" "\<not> returned w' q" by blast
  then show ?case using s by (intro exI[of _ w']) simp
qed

lemma fresh_hub_wf: "fresh_hub h w \<Longrightarrow> hub_wf h w"
  by (simp add: fresh_hub_def hub_wf_def clients_of_def)


lemmas run_defs = step_def session_step_def readLoop_broadcast_def readLoop_locked_def
  ServeHTTP_iter_def try_send_def set_hub_def emit_def clients_of_def Let_def

lemma primed_world_exec:
  "exec 0 [Receive [0xAA, 0xBB], Broadcast] example_world = Inr primed_world"
  by (simp add: primed_world_def run_defs example_world_readers example_world_hub)

lemma primed_world_readers: "readers primed_world 0 = Reading"
  by (simp add: primed_world_def run_defs example_world_readers example_world_hub)

lemma example_world_response: "response example_world c = []"
  by (simp add: eval_defs)

lemma example_world_returned: "returned example_world c = False"
  by (simp add: eval_defs)

lemma joined_world_step: "step 0 Subscribe primed_world = Inr joined_world"
  by (simp add: joined_world_def step_def unless_blocked_def ServeHTTP_subscribe_def
        send_AddCh_def run_add_def try_send_def Let_def primed_world_hub primed_world_rest
        make_chan_def set_hub_def)

lemma joined_world_obs:
  "heap joined_world 0 =
     \<lparr>Clients = Some [0], UdpConn = Some SocketOpen, Closed = False, LastFrame = Some [0xAA, 0xBB]\<rparr>"
  "chans joined_world 0 = \<lparr>buf = [[0xAA, 0xBB]], cap = 20, closed = False\<rparr>"
  "readers joined_world 0 = Reading" "response joined_world 0 = []"
  "run_exited joined_world 0 = False" "next_chan joined_world = 1"
  "returned joined_world 0 = False"
  by (simp_all add: joined_world_def step_def unless_blocked_def ServeHTTP_subscribe_def
        send_AddCh_def run_add_def try_send_def Let_def primed_world_hub primed_world_rest
        primed_world_readers make_chan_def set_hub_def emit_def)

lemma streamed_world_exec:
  "exec 0 [Receive [0xCC], Broadcast, Session 0 (FromQueue Written), Receive [0xDD], Broadcast,
           Receive [0xEE]] joined_world
     = Inr streamed_world"
  by (simp add: streamed_world_def run_defs joined_world_obs)

lemma streamed_world_obs:
  "response streamed_world 0 = [[0xAA, 0xBB]]"
  "buf (chans streamed_world 0) = [[0xCC], [0xDD]]"
  "readers streamed_world 0 = Holding [0] [0xEE]"
  "returned streamed_world 0 = False"
  "Closed (heap streamed_world 0) = False"
  by (simp_all add: streamed_world_def run_defs joined_world_obs)

lemma lone_subscriber_step: "step 0 Subscribe example_world = Inr lone_subscriber"
  by (simp add: lone_subscriber_def step_def unless_blocked_def ServeHTTP_subscribe_def
        send_AddCh_def run_add_def Let_def example_world_hub example_world_run)

lemma lone_subscriber_obs:
  "heap lone_subscriber 0 =
     \<lparr>Clients = Some [0], UdpConn = Some SocketOpen, Closed = False, LastFrame = None\<rparr>"
  "chans lone_subscriber 0 = \<lparr>buf = [], cap = 20, closed = False\<rparr>"
  "readers lone_subscriber 0 = Reading" "response lone_subscriber 0 = []"
  "returned lone_subscriber 0 = False"
  by (simp_all add: lone_subscriber_def step_def unless_blocked_def ServeHTTP_subscribe_def
        send_AddCh_def run_add_def Let_def example_world_hub example_world_run
        example_world_next_chan example_world_readers make_chan_def set_hub_def emit_def)


text \<open>
  \<^bold>\<open>C4\<close>, as stated, fails, in three ways.

  A session joins hub 0 after the reader received \<open>AA BB\<close>; the reader then
  receives \<open>CC\<close> and broadcasts it, and the session writes both payloads of its
  queue to its response. The queue never overflows, yet the response holds
  \<open>AA BB\<close> and \<open>CC\<close>, while the only datagram processed after the join is
  \<open>CC\<close>: the session is first delivered the frame received before it joined.

  A session joins hub 0 before any datagram; the reader receives \<open>CC\<close> and
  broadcasts it; the session takes \<open>CC\<close> from its queue and the write times
  out, so the session returns. The queue never overflowed, and the response
  holds nothing, while \<open>CC\<close> was processed after the join.

  A session joins hub 0 before any datagram; the hub is closed from outside;
  the reader, whose read had succeeded, processes \<open>CC\<close> and finds no subscriber
  to send it to. The session has not returned yet and its queue never
  overflowed, but \<open>CC\<close> will never reach it.
\<close>

theorem delivered_differs_from_received_after_join:
  "(case exec 0 [Subscribe, Receive [0xCC], Broadcast, Session 0 (FromQueue Written),
                 Session 0 (FromQueue Written)] primed_world of
      Inl p \<Rightarrow> False
    | Inr w \<Rightarrow> response w 0 = [[0xAA, 0xBB], [0xCC]] \<and> buf (chans w 0) = []
         \<and> readers w 0 = Reading)
   \<and> received [Receive [0xCC], Broadcast, Session 0 (FromQueue Written),
               Session 0 (FromQueue Written)] = [[0xCC]]
   \<and> \<not> overflows 0 0 [Receive [0xCC], Broadcast, Session 0 (FromQueue Written),
                       Session 0 (FromQueue Written)] joined_world
   \<and> (case exec 0 [Subscribe, Receive [0xCC], Broadcast, Session 0 (FromQueue WriteTimedOut)]
             example_world of
      Inl p \<Rightarrow> False
    | Inr w \<Rightarrow> response w 0 = [] \<and> buf (chans w 0) = [] \<and> returned w 0
         \<and> readers w 0 = Reading)
   \<and> received [Receive [0xCC], Broadcast, Session 0 (FromQueue WriteTimedOut)] = [[0xCC]]
   \<and> \<not> overflows 0 0 [Receive [0xCC], Broadcast, Session 0 (FromQueue WriteTimedOut)]
           lone_subscriber
   \<and> (case exec 0 [Subscribe, CloseHub, Receive [0xCC], Broadcast] example_world of
      Inl p \<Rightarrow> False
    | Inr w \<Rightarrow> response w 0 = [] \<and> buf (chans w 0) = [] \<and> \<not> returned w 0
         \<and> readers w 0 = Reading)
   \<and> received [CloseHub, Receive [0xCC], Broadcast] = [[0xCC]]
   \<and> \<not> overflows 0 0 [CloseHub, Receive [0xCC], Broadcast] lone_subscriber"
  by (simp add: joined_world_step lone_subscriber_step)
     (simp add: run_defs joined_world_obs lone_subscriber_obs drops_def Close_def close_chan_def)


text \<open>
  \<^bold>\<open>C4\<close>, amended. Take any run of a freshly created hub up to the moment a
  session subscribes (with the coordinator running), and any run after it; the
  session is not migrated. Let the priming frame be the hub's last frame at the
  join: the last datagram received before the join, if there is one. Then
  \<^item> right after the join nothing is delivered yet and the session's queue
    holds exactly the priming frame;
  \<^item> the sequence of payloads delivered to the session's response is always a
    subsequence of the priming frame followed by the datagrams received after
    the join, in receive order,
  \<^item> and hence of the reader's whole receive sequence;
  \<^item> and as long as the queue has not overflowed, the session has not returned
    and the hub is not closed, the delivered sequence, followed by the payloads
    waiting in the queue and the one the reader holds for the session, is
    exactly the priming frame followed by every datagram received after the
    join, in receive order; and once the session has written what waits in its
    queue, the delivered sequence is all of that but the payload the reader
    holds.
\<close>

theorem subscriber_delivery:
  assumes "fresh_hub h w0" and "exec h pre w0 = Inr w1" and "\<not> run_exited w1 h"
      and "step h Subscribe w1 = Inr ws" and "exec h post ws = Inr w2"
  shows "priming h w1 = (if received pre = [] then [] else [last (received pre)])
     \<and> response ws (next_chan w1) = [] \<and> buf (chans ws (next_chan w1)) = priming h w1
     \<and> subseq (response w2 (next_chan w1)) (priming h w1 @ received post)
     \<and> subseq (response w2 (next_chan w1)) (received (pre @ post))
     \<and> (\<not> overflows h (next_chan w1) post ws \<and> \<not> returned w2 (next_chan w1)
          \<and> \<not> Closed (heap w2 h) \<longrightarrow>
        response w2 (next_chan w1) @ buf (chans w2 (next_chan w1)) @ holding h (next_chan w1) w2
          = priming h w1 @ received post
        \<and> (\<exists>w3. exec h (replicate (length (buf (chans w2 (next_chan w1))))
                          (Session (next_chan w1) (FromQueue Written))) w2 = Inr w3
              \<and> response w3 (next_chan w1) @ holding h (next_chan w1) w2
                  = priming h w1 @ received post))"
proof -
  let ?q = "next_chan w1"
  have wf0: "hub_wf h w0" by (rule fresh_hub_wf[OF assms(1)])
  have wf1: "hub_wf h w1" using exec_wf[OF assms(2) wf0] by simp
  have wfs: "hub_wf h ws" by (rule step_wf[OF assms(4) wf1])
  have lf: "LastFrame (heap w1 h) = (if received pre = [] then None else Some (last (received pre)))"
    using exec_LastFrame[OF assms(2) wf0] assms(1) by (simp add: fresh_hub_def)
  have c1: "priming h w1 = (if received pre = [] then [] else [last (received pre)])"
    by (simp add: priming_def lf)
  from step_Subscribe[OF assms(4)] assms(3) obtain cs where
    s: "Clients (heap w1 h) = Some cs" "Clients (heap ws h) = Some (List.insert ?q cs)"
       "next_chan ws = Suc ?q" "readers ws = readers w1"
       "response ws ?q = []" "buf (chans ws ?q) = priming h w1"
    by auto
  have c2: "response ws ?q = [] \<and> buf (chans ws ?q) = priming h w1" using s(5,6) by simp
  have gs: "got ?q ws = priming h w1" using s(5,6) by (simp add: got_def)
  have hs: "holding h ?q ws = []"
    using wf1 s(4) by (auto simp: holding_def hub_wf_def split: reader.splits)
  have qs: "?q < next_chan ws" using s(3) by simp
  have ms: "?q \<in> set (clients_of (heap ws h))" using s(2) by (simp add: clients_of_def)
  have "subseq (got ?q ws @ holding h ?q ws) (priming h w1)" using gs hs by simp
  from exec_subseq[OF assms(5) wfs qs this]
  have g3: "subseq (got ?q w2 @ holding h ?q w2) (priming h w1 @ received post)" .
  have p: "subseq (response w2 ?q) (got ?q w2 @ holding h ?q w2)"
    by (auto simp: got_def intro: list_emb_prefix)
  have c3: "subseq (response w2 ?q) (priming h w1 @ received post)"
    using p g3 by (meson subseq_order.trans)
  have pp: "subseq (priming h w1) (received pre)"
  proof (cases "received pre = []")
    case True
    then show ?thesis using c1 by simp
  next
    case False
    then have "received pre = butlast (received pre) @ [last (received pre)]" by simp
    then have "subseq [last (received pre)] (received pre)"
      by (metis list_emb_append2 subseq_order.order_refl)
    then show ?thesis using c1 False by simp
  qed
  have c4: "subseq (response w2 ?q) (received (pre @ post))"
    unfolding received_append
    using c3 pp
    by (meson list_emb_append_mono subseq_order.order_refl subseq_order.trans)
  have c5: "\<not> overflows h ?q post ws \<and> \<not> returned w2 ?q \<and> \<not> Closed (heap w2 h) \<longrightarrow>
        response w2 ?q @ buf (chans w2 ?q) @ holding h ?q w2 = priming h w1 @ received post
        \<and> (\<exists>w3. exec h (replicate (length (buf (chans w2 ?q))) (Session ?q (FromQueue Written))) w2
                   = Inr w3
              \<and> response w3 ?q @ holding h ?q w2 = priming h w1 @ received post)"
  proof
    assume a: "\<not> overflows h ?q post ws \<and> \<not> returned w2 ?q \<and> \<not> Closed (heap w2 h)"
    from exec_exact[OF assms(5) wfs qs ms] a
    have e: "response w2 ?q @ buf (chans w2 ?q) @ holding h ?q w2 = priming h w1 @ received post"
      using gs hs by (simp add: got_def)
    from a have "\<not> returned w2 ?q" by simp
    from exec_drain[OF this refl, of h] obtain w3 where
      d: "exec h (replicate (length (buf (chans w2 ?q))) (Session ?q (FromQueue Written))) w2 = Inr w3"
         "response w3 ?q = response w2 ?q @ buf (chans w2 ?q)" by blast
    have "response w3 ?q @ holding h ?q w2 = priming h w1 @ received post"
      using d(2) e by simp
    with d(1) e show "response w2 ?q @ buf (chans w2 ?q) @ holding h ?q w2 = priming h w1 @ received post
        \<and> (\<exists>w3. exec h (replicate (length (buf (chans w2 ?q))) (Session ?q (FromQueue Written))) w2
                   = Inr w3
              \<and> response w3 ?q @ holding h ?q w2 = priming h w1 @ received post)"
      by blast
  qed
  show ?thesis using c1 c2 c3 c4 c5 by blast
qed

text \<open>
  On the example: primed with \<open>AA BB\<close>, the session has written \<open>AA BB\<close>,
  \<open>CC\<close> and \<open>DD\<close> wait in its queue and the reader holds \<open>EE\<close> for it: together
  the priming frame followed by all that was received after the join. Two more
  rounds of the session deliver \<open>CC\<close> and \<open>DD\<close>.
\<close>

theorem subscriber_delivery_witness:
  "priming 0 primed_world = [[0xAA, 0xBB]]
   \<and> response joined_world 0 = [] \<and> buf (chans joined_world 0) = [[0xAA, 0xBB]]
   \<and> response streamed_world 0 = [[0xAA, 0xBB]]
   \<and> buf (chans streamed_world 0) = [[0xCC], [0xDD]]
   \<and> holding 0 0 streamed_world = [[0xEE]]
   \<and> (\<exists>w3. exec 0 [Session 0 (FromQueue Written), Session 0 (FromQueue Written)] streamed_world
              = Inr w3
         \<and> response w3 0 = [[0xAA, 0xBB], [0xCC], [0xDD]])"
proof -
  have f: "fresh_hub 0 example_world"
    by (simp add: fresh_hub_def example_world_hub example_world_readers)
  have r: "\<not> run_exited primed_world 0" by (simp add: primed_world_rest)
  have o: "\<not> overflows 0 0 [Receive [0xCC], Broadcast, Session 0 (FromQueue Written),
              Receive [0xDD], Broadcast, Receive [0xEE]] joined_world"
    by (simp add: run_defs joined_world_obs drops_def)
  have n: "next_chan primed_world = 0" by (simp add: primed_world_rest)
  have h: "holding 0 0 streamed_world = [[0xEE]]" by (simp add: holding_def streamed_world_obs)
  have l: "replicate (length (buf (chans streamed_world 0))) (Session 0 (FromQueue Written))
      = [Session 0 (FromQueue Written), Session 0 (FromQueue Written)]"
    by (simp add: streamed_world_obs)
  have rc: "received [Receive [0xCC], Broadcast, Session 0 (FromQueue Written),
              Receive [0xDD], Broadcast, Receive [0xEE]] = [[0xCC], [0xDD], [0xEE]]" by simp
  have rp: "received [Receive [0xAA, 0xBB], Broadcast] = [[0xAA, 0xBB]]" by simp
  have nr: "\<not> returned streamed_world 0" "\<not> Closed (heap streamed_world 0)"
    by (simp_all add: streamed_world_obs)
  note t = subscriber_delivery[OF f primed_world_exec r joined_world_step streamed_world_exec,
       unfolded n rp rc l h]
  from t have p: "priming 0 primed_world = [[0xAA, 0xBB]]" by simp
  from t have j: "response joined_world 0 = [] \<and> buf (chans joined_world 0) = [[0xAA, 0xBB]]"
    unfolding p by blast
  from t o nr have "\<exists>w3. exec 0 [Session 0 (FromQueue Written), Session 0 (FromQueue Written)] streamed_world
              = Inr w3
         \<and> response w3 0 @ [[0xEE]] = [[0xAA, 0xBB]] @ [[0xCC], [0xDD], [0xEE]]"
    unfolding p by blast
  then obtain w3 where
    e: "exec 0 [Session 0 (FromQueue Written), Session 0 (FromQueue Written)] streamed_world = Inr w3"
    and "response w3 0 @ [[0xEE]] = [[0xAA, 0xBB]] @ [[0xCC], [0xDD], [0xEE]]" by blast
  then have "response w3 0 @ [[0xEE]] = [[0xAA, 0xBB], [0xCC], [0xDD]] @ [[0xEE]]" by simp
  then have "response w3 0 = [[0xAA, 0xBB], [0xCC], [0xDD]]" by (simp only: append1_eq_conv simp_thms)
  with e have "\<exists>w3. exec 0 [Session 0 (FromQueue Written), Session 0 (FromQueue Written)] streamed_world
              = Inr w3
         \<and> response w3 0 = [[0xAA, 0xBB], [0xCC], [0xDD]]" by blast
  with p j h show ?thesis by (simp add: streamed_world_obs)
qed


subsection \<open>Subscribed queues stay open\<close>

text \<open>
  In every state a run of a hub's steps reaches without a panic, the hub's
  subscriber set names each queue once and only open queues: the conditions
  under which \<open>Close\<close> and the coordinator's remove branch were shown to
  return hold wherever a freshly created hub can get.
\<close>

lemma broadcast_Inr_closed:
  "broadcastToClients cl d st = Inr (log, st') \<Longrightarrow> closed (st' c) = closed (st c)"
proof (induction cl arbitrary: st log)
  case Nil
  then show ?case by simp
next
  case (Cons a cl)
  from Cons.prems obtain at st1 log1 where
    t: "try_send a d st = Inr (at, st1)" and
    b: "broadcastToClients cl d st1 = Inr (log1, st')"
    by (auto split: sum.splits prod.splits)
  from t have "closed (st1 c) = closed (st c)"
    by (auto simp: try_send_def Let_def split: if_splits)
  with Cons.IH[OF b] show ?case by simp
qed

lemma step_clients_open:
  assumes "step h e w = Inr w'" "hub_wf h w"
     "\<forall>c \<in> set (clients_of (heap w h)). \<not> closed (chans w c)"
  shows "\<forall>c \<in> set (clients_of (heap w' h)). \<not> closed (chans w' c)"
proof (cases e)
  case Subscribe
  show ?thesis
  proof (cases "run_exited w h")
    case True
    with step_Subscribe[OF assms(1)[unfolded Subscribe]] show ?thesis using assms(3) by auto
  next
    case False
    let ?n = "next_chan w"
    from step_Subscribe[OF assms(1)[unfolded Subscribe]] False obtain cs where
      r: "Clients (heap w h) = Some cs" "Clients (heap w' h) = Some (List.insert ?n cs)"
         "\<forall>c. c \<noteq> ?n \<longrightarrow> chans w' c = chans w c" "\<not> closed (chans w' ?n)" by auto
    then show ?thesis using assms(3) by (simp add: clients_of_simps) metis
  qed
next
  case (Unsubscribe ch)
  let ?w = "w\<lparr>returned := (returned w)(ch := True)\<rparr>"
  from step_Unsubscribe[OF assms(1)[unfolded Unsubscribe]] show ?thesis
  proof
    assume "w' = w" then show ?thesis using assms(3) by simp
  next
    assume r: "run_remove h ch ?w = Inr w'"
    let ?cs = "clients_of (heap w h)"
    have o: "ch \<in> set (clients_of (heap ?w h)) \<longrightarrow> \<not> closed (chans ?w ch)" using assms(3) by simp
    have c: "Closed (heap ?w h) \<longrightarrow> Clients (heap ?w h) = None"
      using assms(2) by (simp add: hub_wf_def)
    note eq = run_remove_eq[OF o, unfolded Let_def]
    show ?thesis
    proof (cases "removeAll ch ?cs = []")
      case True
      then show ?thesis using run_remove_Inr[OF r c] by simp
    next
      case False
      then show ?thesis using eq r assms(3)
        by (auto simp: emit_def set_hub_def clients_of_def split: if_splits)
    qed
  qed
next
  case (Receive d)
  from step_Receive[OF assms(1)[unfolded Receive]] obtain w1 where
    b: "readLoop_broadcast h w = Inr w1" and w': "w' = readLoop_locked h d w1" by blast
  have c: "closed (chans w1 c) = closed (chans w c)" for c
    using b broadcast_Inr_closed
    by (auto simp: readLoop_broadcast_def split: reader.splits sum.splits prod.splits)
  from readLoop_broadcast_Inr[OF b assms(2), of 0] readLoop_locked_obs[of h d w1] assms(3) c
  show ?thesis by (simp add: w' clients_of_def)
next
  case Broadcast
  then have b: "readLoop_broadcast h w = Inr w'" using assms(1) by (simp add: step_def)
  have c: "closed (chans w' c) = closed (chans w c)" for c
    using b broadcast_Inr_closed
    by (auto simp: readLoop_broadcast_def split: reader.splits sum.splits prod.splits)
  from readLoop_broadcast_Inr[OF b assms(2), of 0] assms(3) c show ?thesis by simp
next
  case (Session ch sc)
  from step_Session[OF assms(1)[unfolded Session], of 0] assms(3) show ?thesis by simp
next
  case (Unflushable ch)
  from step_Unflushable[OF assms(1)[unfolded Unflushable], of 0] assms(3) show ?thesis by simp
next
  case CloseHub
  then have c: "Close h w = Inr w'" using assms(1) by (simp add: step_def)
  from Close_Inr[OF c] assms(3) show ?thesis
    by (auto simp: clients_of_simps split: if_splits)
next
  case CoordinatorClosed
  from step_CoordinatorClosed[OF assms(1)[unfolded CoordinatorClosed]] show ?thesis
    using run_closed_Inr[of h w w'] assms(3) by (auto simp: clients_of_simps)
qed

lemma reachable_clients_open:
  "exec h es w = Inr w' \<Longrightarrow> hub_wf h w \<Longrightarrow>
     \<forall>c \<in> set (clients_of (heap w h)). \<not> closed (chans w c) \<Longrightarrow>
     distinct (clients_of (heap w' h)) \<and> (\<forall>c \<in> set (clients_of (heap w' h)). \<not> closed (chans w' c))"
proof (induction es arbitrary: w)
  case Nil
  then show ?case by (simp add: hub_wf_def)
next
  case (Cons e es)
  from Cons.prems(1) obtain w1 where s: "step h e w = Inr w1" and r: "exec h es w1 = Inr w'"
    by (auto split: sum.splits)
  from Cons.IH[OF r step_wf[OF s Cons.prems(2)] step_clients_open[OF s Cons.prems(2,3)]]
  show ?case .
qed

lemma fresh_hub_clients_open:
  assumes "fresh_hub h w0" and "exec h es w0 = Inr w"
  shows "distinct (clients_of (heap w h))
     \<and> (\<forall>c \<in> set (clients_of (heap w h)). \<not> closed (chans w c))"
  using reachable_clients_open[OF assms(2) fresh_hub_wf[OF assms(1)]] assms(1)
  by (simp add: fresh_hub_def clients_of_def)

end
